theory Spec2Isabelle
  imports Main
begin

section \<open>Permutations\<close>

text \<open>
  Modelled from the spec: the permutation class (\<^verbatim>\<open>Perm<n>\<close>, formerly \<^verbatim>\<open>NPerm\<close>) is missing
  from the sources. The spec describes it as an immutable value mapping the ordered vertex
  set of size \<open>dim + 1\<close> to itself, composable and invertible. A permutation is represented
  by the list of its images, so \<^verbatim>\<open>Perm<4>(a,b,c,d)\<close> is \<open>[a, b, c, d]\<close> and \<^verbatim>\<open>p[i]\<close> is
  \<open>p ! i\<close>. The class only ever holds bijections; here that is the predicate \<open>is_perm\<close>.
\<close>

type_synonym perm = "nat list"

definition is_perm :: "nat \<Rightarrow> perm \<Rightarrow> bool" where
  "is_perm n p \<longleftrightarrow> length p = n \<and> distinct p \<and> list_all (\<lambda>x. x < n) p"

definition perm_id :: "nat \<Rightarrow> perm" where
  "perm_id n = [0..<n]"

definition perm_pair :: "nat \<Rightarrow> nat \<Rightarrow> nat \<Rightarrow> perm" where
  \<comment> \<open>\<^verbatim>\<open>Perm<n>(a, b)\<close>: the transposition of \<open>a\<close> and \<open>b\<close>\<close>
  "perm_pair n a b = (perm_id n)[a := b, b := a]"

definition preimage :: "perm \<Rightarrow> nat \<Rightarrow> nat" where
  "preimage p i = length (takeWhile (\<lambda>x. x \<noteq> i) p)"

definition perm_inverse :: "perm \<Rightarrow> perm" where
  "perm_inverse p = map (preimage p) [0..<length p]"

definition perm_mult :: "perm \<Rightarrow> perm \<Rightarrow> perm" where
  \<comment> \<open>\<^verbatim>\<open>p * q\<close>: apply \<open>q\<close> first, then \<open>p\<close>\<close>
  "perm_mult p q = map (\<lambda>i. p ! (q ! i)) [0..<length q]"

definition inversions :: "perm \<Rightarrow> nat" where
  "inversions p =
     length (filter (\<lambda>(i, j). i < j \<and> p ! j < p ! i)
       (List.product [0..<length p] [0..<length p]))"

definition perm_sign :: "perm \<Rightarrow> int" where
  "perm_sign p = (if even (inversions p) then 1 else - 1)"

section \<open>Simplices and the store\<close>

text \<open>
  A simplex object: its description, the back-reference \<open>tri\<close> to the owning triangulation
  object, the facet slots \<open>adj\<close> (a null pointer is \<open>None\<close>) and \<open>gluing\<close>, indexed by
  facet number \<open>0..dim\<close>, and \<open>marking\<close>, the index that the marked vector \<^verbatim>\<open>simplices_\<close>
  keeps inside each of its elements. The lock flags are modelled from the spec, which gives
  every simplex an optional whole-simplex lock and per-facet locks.
\<close>

record simplex =
  description :: string
  tri :: nat
  adj :: "nat \<Rightarrow> nat option"
  gluing :: "nat \<Rightarrow> perm"
  marking :: nat
  simplexLock :: bool
  facetLock :: "nat \<Rightarrow> bool"

text \<open>
  The store: simplex objects by address, the next unused address, the vector
  \<^verbatim>\<open>simplices_\<close> of every triangulation object, and the next unused triangulation object.
\<close>

record world =
  heap :: "nat \<Rightarrow> simplex"
  nxt :: nat
  simplices :: "nat \<Rightarrow> nat list"
  ntri :: nat

datatype error = LockViolation | AlreadyGlued | NotGlued | PreconditionFailure

definition slot :: "world \<Rightarrow> nat \<Rightarrow> nat \<Rightarrow> (nat \<times> perm) option" where
  \<comment> \<open>a facet slot: nothing (boundary) or the pair (adjacent simplex, gluing)\<close>
  "slot w s f = map_option (\<lambda>a. (a, gluing (heap w s) f)) (adj (heap w s) f)"

definition size_tri :: "world \<Rightarrow> nat \<Rightarrow> nat" where
  "size_tri w t = length (simplices w t)"

section \<open>Gluing facets\<close>

definition joinRaw :: "nat \<Rightarrow> nat \<Rightarrow> nat \<Rightarrow> perm \<Rightarrow> world \<Rightarrow> world" where
  \<comment> \<open>Modelled from the spec: \<^verbatim>\<open>joinRaw\<close> is missing. It has the effect of \<^verbatim>\<open>join\<close>
      without lock checking: this simplex's slot is set first, then the other's.\<close>
  "joinRaw me myFacet you g w =
     (let w1 = w\<lparr>heap := (heap w)(me := (heap w me)
                 \<lparr>adj := (adj (heap w me))(myFacet := Some you),
                  gluing := (gluing (heap w me))(myFacet := g)\<rparr>)\<rparr>
      in w1\<lparr>heap := (heap w1)(you := (heap w1 you)
                 \<lparr>adj := (adj (heap w1 you))(g ! myFacet := Some me),
                  gluing := (gluing (heap w1 you))(g ! myFacet := perm_inverse g)\<rparr>)\<rparr>)"

definition join :: "nat \<Rightarrow> nat \<Rightarrow> nat \<Rightarrow> nat \<Rightarrow> perm \<Rightarrow> world \<Rightarrow> error option \<times> world" where
  \<comment> \<open>Modelled from the spec: \<^verbatim>\<open>Simplex::join\<close> is missing. The result is the error
      raised, if any, and the store; a failed join leaves the store untouched.\<close>
  "join dim me myFacet you g w =
     (if \<not> myFacet \<le> dim then (Some PreconditionFailure, w)
      else if adj (heap w me) myFacet \<noteq> None \<or> adj (heap w you) (g ! myFacet) \<noteq> None
        then (Some AlreadyGlued, w)
      else if you = me \<and> g ! myFacet = myFacet then (Some PreconditionFailure, w)
      else if simplexLock (heap w me) \<or> facetLock (heap w me) myFacet
              \<or> simplexLock (heap w you) \<or> facetLock (heap w you) (g ! myFacet)
        then (Some LockViolation, w)
      else (None, joinRaw me myFacet you g w))"


definition unjoinRaw :: "nat \<Rightarrow> nat \<Rightarrow> world \<Rightarrow> world" where
  \<comment> \<open>Modelled from the spec: the effect of \<^verbatim>\<open>unjoin\<close>, which is missing. Both sides of
      the pairing are cleared; a boundary facet is left as it is.\<close>
  "unjoinRaw me myFacet w =
     (case adj (heap w me) myFacet of
        None \<Rightarrow> w
      | Some you \<Rightarrow>
          (let yourFacet = gluing (heap w me) myFacet ! myFacet;
               w1 = w\<lparr>heap := (heap w)(you := (heap w you)
                        \<lparr>adj := (adj (heap w you))(yourFacet := None)\<rparr>)\<rparr>
           in w1\<lparr>heap := (heap w1)(me := (heap w1 me)
                        \<lparr>adj := (adj (heap w1 me))(myFacet := None)\<rparr>)\<rparr>))"

definition unjoin :: "nat \<Rightarrow> nat \<Rightarrow> world \<Rightarrow> error option \<times> world" where
  \<comment> \<open>Modelled from the spec: \<^verbatim>\<open>Simplex::unjoin\<close> is missing. The facet must be glued
      and unlocked; on a boundary facet it is an error that changes nothing.\<close>
  "unjoin me myFacet w =
     (if adj (heap w me) myFacet = None then (Some NotGlued, w)
      else if facetLock (heap w me) myFacet then (Some LockViolation, w)
      else (None, unjoinRaw me myFacet w))"

definition isolateRaw :: "nat \<Rightarrow> nat \<Rightarrow> world \<Rightarrow> world" where
  \<comment> \<open>Modelled from the spec: \<^verbatim>\<open>isolate\<close> (missing) unjoins every facet of the simplex.\<close>
  "isolateRaw dim me w = fold (unjoinRaw me) [0..<Suc dim] w"

section \<open>Sequencing operations that may throw\<close>

text \<open>
  An operation that may throw maps the store to the exception thrown, if any, and the store
  at that moment. A sequence of such operations stops at the first exception.
\<close>

type_synonym command = "world \<Rightarrow> error option \<times> world"

definition andThen :: "command \<Rightarrow> command \<Rightarrow> command" where
  "andThen c d w = (case c w of (None, w') \<Rightarrow> d w' | (Some e, w') \<Rightarrow> (Some e, w'))"

fun runAll :: "command list \<Rightarrow> command" where
  "runAll [] w = (None, w)"
| "runAll (c # cs) w = (case c w of (None, w') \<Rightarrow> runAll cs w' | (Some e, w') \<Rightarrow> (Some e, w'))"

section \<open>The triangulation container (generic/triangulation.h)\<close>

definition emptyWorld :: world where
  "emptyWorld = \<lparr>heap = (\<lambda>_. \<lparr>description = [], tri = 0, adj = (\<lambda>_. None),
                     gluing = (\<lambda>_. []), marking = 0, simplexLock = False,
                     facetLock = (\<lambda>_. False)\<rparr>),
                 nxt = 0, simplices = (\<lambda>_. []), ntri = 0\<rparr>"

definition Simplex :: "nat \<Rightarrow> string \<Rightarrow> nat \<Rightarrow> simplex" where
  \<comment> \<open>Modelled from the spec: the constructor of \<^verbatim>\<open>Simplex<dim>\<close> is missing. The new
      simplex has the given description and owner, every facet is a boundary facet
      (as the documentation of \<^verbatim>\<open>newSimplex\<close> says), the gluings are default permutations
      (the identity) and nothing is locked.\<close>
  "Simplex dim desc t =
     \<lparr>description = desc, tri = t, adj = (\<lambda>_. None), gluing = (\<lambda>_. perm_id (Suc dim)),
      marking = 0, simplexLock = False, facetLock = (\<lambda>_. False)\<rparr>"

definition new :: "simplex \<Rightarrow> world \<Rightarrow> nat \<times> world" where
  \<comment> \<open>\<^verbatim>\<open>new Simplex<dim>(...)\<close>: the object is placed at the next unused address\<close>
  "new s w = (nxt w, w\<lparr>heap := (heap w)(nxt w := s), nxt := Suc (nxt w)\<rparr>)"

definition push_back :: "nat \<Rightarrow> nat \<Rightarrow> world \<Rightarrow> world" where
  \<comment> \<open>Modelled from the spec: the marked vector is missing. It stores in each element
      the element's index, so that indices are contiguous \<open>0..size-1\<close>.\<close>
  "push_back t s w =
     w\<lparr>heap := (heap w)(s := (heap w s)\<lparr>marking := length (simplices w t)\<rparr>),
       simplices := (simplices w)(t := simplices w t @ [s])\<rparr>"

definition erase :: "nat \<Rightarrow> nat \<Rightarrow> world \<Rightarrow> world" where
  \<comment> \<open>Modelled from the spec: erasing from the marked vector decrements the indices of
      the later elements.\<close>
  "erase t i w =
     (let xs = simplices w t;
          w1 = fold (\<lambda>s v. v\<lparr>heap := (heap v)(s := (heap v s)\<lparr>marking := marking (heap v s) - 1\<rparr>)\<rparr>)
                 (drop (Suc i) xs) w
      in w1\<lparr>simplices := (simplices w1)(t := take i xs @ drop (Suc i) xs)\<rparr>)"

definition newSimplex :: "nat \<Rightarrow> string \<Rightarrow> nat \<Rightarrow> world \<Rightarrow> nat \<times> world" where
  \<comment> \<open>\<^verbatim>\<open>newSimplex()\<close> is \<^verbatim>\<open>newSimplex("")\<close>. Change spans and the clearing of computed
      properties only concern listeners and caches, which the store does not hold.\<close>
  "newSimplex dim desc t w =
     (let (s, w1) = new (Simplex dim desc t) w in (s, push_back t s w1))"

definition newSimplexRaw :: "nat \<Rightarrow> nat \<Rightarrow> world \<Rightarrow> nat \<times> world" where
  \<comment> \<open>Modelled from the spec: \<^verbatim>\<open>newSimplexRaw\<close> is missing; it has the effect of
      \<^verbatim>\<open>newSimplex\<close> without the change event.\<close>
  "newSimplexRaw dim t w = newSimplex dim [] t w"

definition removeSimplexRaw :: "nat \<Rightarrow> nat \<Rightarrow> nat \<Rightarrow> world \<Rightarrow> world" where
  \<comment> \<open>Modelled from the spec: \<^verbatim>\<open>removeSimplexRaw\<close> is missing; it has the effect of
      \<^verbatim>\<open>removeSimplex\<close> (isolate, erase at the marked index, delete) without the change
      event. The freed object stays in the store, unreachable.\<close>
  "removeSimplexRaw dim t s w =
     (let w1 = isolateRaw dim s w in erase t (marking (heap w1 s)) w1)"

definition newTriangulation :: "world \<Rightarrow> nat \<times> world" where
  \<comment> \<open>the default constructor: a new, empty triangulation object\<close>
  "newTriangulation w = (ntri w, w\<lparr>simplices := (simplices w)(ntri w := []), ntri := Suc (ntri w)\<rparr>)"

definition copyFacet :: "nat \<Rightarrow> nat \<Rightarrow> nat \<Rightarrow> nat \<Rightarrow> world \<Rightarrow> world" where
  "copyFacet this me you f w =
     (case adj (heap w you) f of
        Some a \<Rightarrow>
          w\<lparr>heap := (heap w)(me := (heap w me)
              \<lparr>adj := (adj (heap w me))(f := Some (simplices w this ! marking (heap w a))),
               gluing := (gluing (heap w me))(f := gluing (heap w you) f)\<rparr>)\<rparr>
      | None \<Rightarrow>
          w\<lparr>heap := (heap w)(me := (heap w me)\<lparr>adj := (adj (heap w me))(f := None)\<rparr>)\<rparr>)"

definition copySimplex :: "nat \<Rightarrow> nat \<Rightarrow> nat \<times> nat \<Rightarrow> world \<Rightarrow> world" where
  "copySimplex dim this my w = fold (copyFacet this (fst my) (snd my)) [0..<Suc dim] w"

definition pushCopy :: "nat \<Rightarrow> nat \<Rightarrow> nat \<Rightarrow> world \<Rightarrow> world" where
  \<comment> \<open>\<^verbatim>\<open>simplices_.push_back(new Simplex<dim>((*you)->getDescription(), this))\<close>\<close>
  "pushCopy dim this you w =
     (let (s, w1) = new (Simplex dim (description (heap w you)) this) w in push_back this s w1)"

definition copyTriangulation :: "nat \<Rightarrow> nat \<Rightarrow> world \<Rightarrow> nat \<times> world" where
  \<comment> \<open>the copy constructor \<^verbatim>\<open>TriangulationBase(const TriangulationBase& copy)\<close>; the
      result is the new object and the store\<close>
  "copyTriangulation dim copy w =
     (let (this, w0) = newTriangulation w;
          w1 = fold (pushCopy dim this) (simplices w0 copy) w0;
          w2 = fold (copySimplex dim this) (zip (simplices w1 this) (simplices w1 copy)) w1
      in (this, w2))"

definition facetIdentical :: "world \<Rightarrow> nat \<Rightarrow> nat \<Rightarrow> nat \<Rightarrow> nat \<Rightarrow> bool" where
  "facetIdentical w this me you f =
     (case adj (heap w you) f of
        Some a \<Rightarrow> adj (heap w me) f = Some (simplices w this ! marking (heap w a))
                  \<and> gluing (heap w me) f = gluing (heap w you) f
      | None \<Rightarrow> adj (heap w me) f = None)"

definition isIdenticalTo :: "nat \<Rightarrow> world \<Rightarrow> nat \<Rightarrow> nat \<Rightarrow> bool" where
  "isIdenticalTo dim w this other =
     (if length (simplices w this) \<noteq> length (simplices w other) then False
      else list_all (\<lambda>(me, you). list_all (facetIdentical w this me you) [0..<Suc dim])
             (zip (simplices w this) (simplices w other)))"

definition setTri :: "nat \<Rightarrow> nat \<Rightarrow> world \<Rightarrow> world" where
  "setTri t s w = w\<lparr>heap := (heap w)(s := (heap w s)\<lparr>tri := t\<rparr>)\<rparr>"

definition swapContents :: "nat \<Rightarrow> nat \<Rightarrow> world \<Rightarrow> world" where
  "swapContents this other w =
     (let w1 = w\<lparr>simplices := (simplices w)(this := simplices w other, other := simplices w this)\<rparr>;
          w2 = fold (setTri this) (simplices w1 this) w1
      in fold (setTri other) (simplices w2 other) w2)"


section \<open>Surgery on 3-manifold triangulations (triangulation/dim3/subdivide.cpp)\<close>

subsection \<open>idealToFinite\<close>

text \<open>
  The numbering of the pieces of one subdivided tetrahedron: the arrays \<^verbatim>\<open>tip\<close>,
  \<^verbatim>\<open>interior\<close>, \<^verbatim>\<open>edge\<close>, \<^verbatim>\<open>vertex\<close> and the counter \<^verbatim>\<open>nDiv\<close>. The diagonal entries of
  \<^verbatim>\<open>edge\<close> and \<^verbatim>\<open>vertex\<close> are never written and never read; here they hold 0.
\<close>

record pieces =
  tip :: "nat \<Rightarrow> nat"
  interior :: "nat \<Rightarrow> nat"
  edge :: "nat \<Rightarrow> nat \<Rightarrow> nat"
  vertex :: "nat \<Rightarrow> nat \<Rightarrow> nat"
  nDiv :: nat

definition numberEdgeVertex :: "nat \<Rightarrow> nat \<Rightarrow> pieces \<Rightarrow> pieces" where
  "numberEdgeVertex j k d =
     (if j \<noteq> k then
        (let d1 = d\<lparr>edge := (edge d)(j := (edge d j)(k := nDiv d)), nDiv := Suc (nDiv d)\<rparr>
         in d1\<lparr>vertex := (vertex d1)(j := (vertex d1 j)(k := nDiv d1)), nDiv := Suc (nDiv d1)\<rparr>)
      else d)"

definition numberPieces :: "nat \<Rightarrow> pieces \<Rightarrow> pieces" where
  "numberPieces j d =
     (let d1 = d\<lparr>tip := (tip d)(j := nDiv d), nDiv := Suc (nDiv d)\<rparr>;
          d2 = d1\<lparr>interior := (interior d1)(j := nDiv d1), nDiv := Suc (nDiv d1)\<rparr>
      in fold (numberEdgeVertex j) [0..<4] d2)"

definition numbering :: pieces where
  "numbering = fold numberPieces [0..<4]
     \<lparr>tip = (\<lambda>_. 0), interior = (\<lambda>_. 0), edge = (\<lambda>_ _. 0), vertex = (\<lambda>_ _. 0), nDiv = 0\<rparr>"

fun newSimplices :: "nat \<Rightarrow> nat \<Rightarrow> world \<Rightarrow> nat list \<times> world" where
  \<comment> \<open>the loop filling the array \<^verbatim>\<open>newTet\<close> with new simplices of the staging triangulation\<close>
  "newSimplices 0 t w = ([], w)"
| "newSimplices (Suc n) t w =
     (let (s, w1) = newSimplexRaw 3 t w; (ss, w2) = newSimplices n t w1 in (s # ss, w2))"

definition glueInside :: "pieces \<Rightarrow> nat list \<Rightarrow> nat \<Rightarrow> world \<Rightarrow> world" where
  \<comment> \<open>the gluings between the pieces of old tetrahedron \<open>i\<close>\<close>
  "glueInside d newTet i w =
     (let w1 = fold (\<lambda>j. joinRaw (newTet ! (tip d j + i * nDiv d)) j
                          (newTet ! (interior d j + i * nDiv d)) (perm_id 4)) [0..<4] w;
          w2 = fold (\<lambda>j. fold (\<lambda>k v. if j \<noteq> k
                          then joinRaw (newTet ! (interior d j + i * nDiv d)) k
                                 (newTet ! (vertex d k j + i * nDiv d)) (perm_id 4) v
                          else v) [0..<4]) [0..<4] w1
      in fold (\<lambda>j. fold (\<lambda>k v. if j \<noteq> k
                  then (let v1 = (if j < k
                                  then joinRaw (newTet ! (edge d j k + i * nDiv d)) j
                                         (newTet ! (edge d k j + i * nDiv d)) (perm_pair 4 j k) v
                                  else v)
                        in fold (\<lambda>l u. if l \<noteq> j \<and> l \<noteq> k
                                   then joinRaw (newTet ! (edge d j k + i * nDiv d)) l
                                          (newTet ! (vertex d j l + i * nDiv d)) (perm_pair 4 k l) u
                                   else u) [0..<4] v1)
                  else v) [0..<4]) [0..<4] w2)"

definition glueAcross :: "pieces \<Rightarrow> nat list \<Rightarrow> nat \<Rightarrow> nat \<Rightarrow> nat \<Rightarrow> world \<Rightarrow> world" where
  \<comment> \<open>the gluings across facet \<open>j\<close> of old tetrahedron \<open>i\<close> of this triangulation\<close>
  "glueAcross d newTet this i j w =
     (let ot = simplices w this ! i in
      case adj (heap w ot) j of
        None \<Rightarrow> w
      | Some a \<Rightarrow>
          (let oppTet = marking (heap w a); p = gluing (heap w ot) j in
           if oppTet < i \<or> (oppTet = i \<and> p ! j < j) then w
           else
             (let w1 = fold (\<lambda>k v. if j \<noteq> k
                         then joinRaw (newTet ! (tip d k + i * nDiv d)) j
                                (newTet ! (tip d (p ! k) + oppTet * nDiv d)) p v
                         else v) [0..<4] w;
                  w2 = fold (\<lambda>k v. if j \<noteq> k
                         then joinRaw (newTet ! (edge d j k + i * nDiv d)) k
                                (newTet ! (edge d (p ! j) (p ! k) + oppTet * nDiv d)) p v
                         else v) [0..<4] w1
              in fold (\<lambda>k v. if j \<noteq> k
                         then joinRaw (newTet ! (vertex d j k + i * nDiv d)) k
                                (newTet ! (vertex d (p ! j) (p ! k) + oppTet * nDiv d)) p v
                         else v) [0..<4] w2)))"

definition subdivide :: "nat \<Rightarrow> world \<Rightarrow> nat \<times> world" where
  \<comment> \<open>the part of \<^verbatim>\<open>idealToFinite\<close> that builds the staging triangulation, up to the point
      where the array \<^verbatim>\<open>newTet\<close> is deleted; the result is the staging object and the store\<close>
  "subdivide this w =
     (let numOldTet = length (simplices w this);
          (staging, w0) = newTriangulation w;
          (newTet, w1) = newSimplices (32 * numOldTet) staging w0;
          d = numbering;
          w2 = fold (glueInside d newTet) [0..<numOldTet] w1;
          w3 = fold (\<lambda>i. fold (glueAcross d newTet this i) [0..<4]) [0..<numOldTet] w2
      in (staging, w3))"

definition hasLocks :: "world \<Rightarrow> nat \<Rightarrow> bool" where
  \<comment> \<open>Modelled from the spec: \<^verbatim>\<open>hasLocks\<close> is missing; it tells whether any simplex or
      facet lock is present in the triangulation.\<close>
  "hasLocks w t =
     list_ex (\<lambda>s. simplexLock (heap w s) \<or> list_ex (facetLock (heap w s)) [0..<4]) (simplices w t)"

definition idealToFinite ::
    "bool \<Rightarrow> bool \<Rightarrow> (world \<Rightarrow> nat \<Rightarrow> nat list) \<Rightarrow> nat \<Rightarrow> world \<Rightarrow> (error + bool) \<times> world" where
  \<comment> \<open>The skeleton is missing from the sources, so what it computes is given: \<open>valid\<close> and
      \<open>ideal\<close> are the answers of \<^verbatim>\<open>isValid()\<close> and \<^verbatim>\<open>isIdeal()\<close> for this triangulation, and
      \<open>tetList\<close> lists the staging tetrahedra that touch an ideal or invalid vertex. The
      result is the exception (\<open>Inl\<close>) or the value returned, and the store.\<close>
  "idealToFinite valid ideal tetList this w =
     (if valid \<and> \<not> ideal then (Inr False, w)
      else if length (simplices w this) = 0 then (Inr False, w)
      else if hasLocks w this then (Inl LockViolation, w)
      else
        (let (staging, w1) = subdivide this w;
             w2 = fold (removeSimplexRaw 3 staging) (tetList w1 staging) w1
         in (Inr True, swapContents this staging w2)))"

subsection \<open>puncture\<close>

definition newTetrahedron :: "nat \<Rightarrow> world \<Rightarrow> nat \<times> world" where
  "newTetrahedron t w = newSimplex 3 [] t w"

definition puncture :: "nat \<Rightarrow> nat option \<Rightarrow> command" where
  \<comment> \<open>\<open>prism i j\<close> of the source is \<open>pij\<close>; the simplices are created in the order
      \<open>p00, p10, p01, p11, p02, p12\<close>\<close>
  "puncture this tet0 w =
     (case (case tet0 of
              None \<Rightarrow> (if simplices w this = [] then None else Some (hd (simplices w this)))
            | Some s \<Rightarrow> Some s) of
        None \<Rightarrow> (None, w)
      | Some tet \<Rightarrow>
          (let (p00, w1) = newTetrahedron this w;
               (p10, w2) = newTetrahedron this w1;
               (p01, w3) = newTetrahedron this w2;
               (p11, w4) = newTetrahedron this w3;
               (p02, w5) = newTetrahedron this w4;
               (p12, w6) = newTetrahedron this w5
           in runAll
                [join 3 p00 0 p01 [3,0,1,2],
                 join 3 p01 0 p02 [3,0,1,2],
                 join 3 p10 1 p11 [3,0,1,2],
                 join 3 p11 1 p12 [3,2,0,1],
                 join 3 p00 1 p10 [1,2,3,0],
                 join 3 p00 2 p10 [1,2,3,0],
                 join 3 p01 1 p11 [1,2,3,0],
                 join 3 p01 2 p11 [1,2,3,0],
                 join 3 p02 1 p12 [0,1,3,2],
                 join 3 p02 2 p12 [0,1,3,2],
                 (\<lambda>v. case adj (heap v tet) 0 of
                         None \<Rightarrow> (None, v)
                       | Some a \<Rightarrow>
                           (let g = gluing (heap v tet) 0
                            in runAll [unjoin tet 0, join 3 p10 0 a g] v)),
                 join 3 tet 0 p00 [3,0,1,2]] w6))"

subsection \<open>connectedSumWith\<close>

definition insertGluing :: "nat \<Rightarrow> nat \<Rightarrow> nat \<Rightarrow> nat \<Rightarrow> nat \<Rightarrow> command" where
  "insertGluing this X nOrig triPos f w =
     (let t = simplices w X ! triPos in
      case adj (heap w t) f of
        None \<Rightarrow> (None, w)
      | Some adjTri \<Rightarrow>
          (let adjPos = marking (heap w adjTri); adjPerm = gluing (heap w t) f in
           if adjPos > triPos \<or> (adjPos = triPos \<and> adjPerm ! f > f)
           then join 3 (simplices w this ! (nOrig + triPos)) f
                  (simplices w this ! (nOrig + adjPos)) adjPerm w
           else (None, w)))"

definition insertTriangulation :: "nat \<Rightarrow> nat \<Rightarrow> command" where
  \<comment> \<open>Modelled from the spec: \<^verbatim>\<open>Triangulation<3>::insertTriangulation\<close> is missing. It
      inserts a copy of the given triangulation: the new simplices come in the order of the
      given ones, with the same descriptions and vertex numbering. The steps are those of
      the disabled body in generic/triangulation.h, with the facets of a tetrahedron.\<close>
  "insertTriangulation this X w =
     (let nOrig = length (simplices w this);
          nX = length (simplices w X);
          w1 = fold (\<lambda>triPos v. snd (newSimplex 3 (description (heap v (simplices v X ! triPos))) this v))
                 [0..<nX] w
      in runAll (concat (map (\<lambda>triPos. map (insertGluing this X nOrig triPos) [0..<4]) [0..<nX])) w1)"

type_synonym embedding = "nat \<times> perm"

definition connectedSumWith ::
    "(world \<Rightarrow> nat \<Rightarrow> embedding \<times> embedding option) \<Rightarrow> nat \<Rightarrow> nat \<Rightarrow> command" where
  \<comment> \<open>The skeleton is missing from the sources, so what it computes is given:
      \<open>triangle0 w s\<close> is the triangle \<^verbatim>\<open>s->triangle(0)\<close>, as its front embedding and, when it
      has degree 2, its back embedding; an embedding is a tetrahedron and the vertices.\<close>
  "connectedSumWith triangle0 this other w =
     (if simplices w other = [] then (None, w)
      else if simplices w this = [] then insertTriangulation this other w
      else
        (let n = length (simplices w this) in
         runAll
           [insertTriangulation this other,
            (\<lambda>v. puncture this (Some (hd (simplices v this))) v),
            (\<lambda>v. let bdry0 = simplices v this ! (length (simplices v this) - 2);
                      bdry1 = simplices v this ! (length (simplices v this) - 1)
                  in case triangle0 v (simplices v this ! n) of
                       (emb1, Some emb2) \<Rightarrow>
                         runAll
                           ([unjoin (fst emb1) (snd emb1 ! 3)] @
                            (if perm_sign (snd emb1) > 0
                             then [join 3 bdry0 0 (fst emb1) (perm_mult (snd emb1) [3,0,1,2]),
                                   join 3 bdry1 0 (fst emb2) (perm_mult (snd emb2) [3,0,2,1])]
                             else [join 3 bdry0 0 (fst emb1) (perm_mult (snd emb1) [3,0,2,1]),
                                   join 3 bdry1 0 (fst emb2) (perm_mult (snd emb2) [3,0,1,2])])) v
                     | (emb1, None) \<Rightarrow>
                         (if perm_sign (snd emb1) > 0
                          then join 3 bdry0 0 (fst emb1) (perm_mult (snd emb1) [3,0,1,2]) v
                          else join 3 bdry0 0 (fst emb1) (perm_mult (snd emb1) [3,0,2,1]) v))] w))"

section \<open>Example triangulations\<close>

definition twoTetrahedra :: world where
  \<comment> \<open>one triangulation holding two unglued tetrahedra\<close>
  "twoTetrahedra =
     (let (t, w0) = newTriangulation emptyWorld;
          (a, w1) = newSimplex 3 [] t w0;
          (b, w2) = newSimplex 3 [] t w1
      in w2)"

section \<open>The invariants of the data model\<close>

definition wellFormed :: "nat \<Rightarrow> world \<Rightarrow> nat \<Rightarrow> bool" where
  \<comment> \<open>The triangulation object exists and so do its simplices; the index kept in the
      simplex at position \<open>i\<close> is \<open>i\<close>; every simplex referred to by a facet slot is a member
      of the same triangulation.\<close>
  "wellFormed dim w t \<longleftrightarrow>
     t < ntri w \<and>
     list_all (\<lambda>(i, s). s < nxt w \<and> marking (heap w s) = i \<and>
         list_all (\<lambda>f. case adj (heap w s) f of None \<Rightarrow> True
                        | Some a \<Rightarrow> a \<in> set (simplices w t)) [0..<Suc dim])
       (enumerate 0 (simplices w t))"

definition target :: "world \<Rightarrow> nat \<Rightarrow> nat \<Rightarrow> (nat \<times> perm) option" where
  \<comment> \<open>what a facet is glued to, by index: nothing (boundary), or the index of the
      adjacent simplex and the gluing permutation\<close>
  "target w s f = map_option (\<lambda>a. (marking (heap w a), gluing (heap w s) f)) (adj (heap w s) f)"

definition relabel :: "(nat \<Rightarrow> string) \<Rightarrow> world \<Rightarrow> world" where
  \<comment> \<open>the same store with other descriptions on the simplices\<close>
  "relabel d w = w\<lparr>heap := (\<lambda>a. (heap w a)\<lparr>description := d a\<rparr>)\<rparr>"

definition gieseking :: world where
  \<comment> \<open>the one-tetrahedron triangulation of the Gieseking manifold built in the test suite:
      facet 0 is glued to facet 1 of the same tetrahedron, facet 2 to facet 3\<close>
  "gieseking =
     (let (t, w0) = newTriangulation emptyWorld;
          (r, w1) = newSimplex 3 [] t w0
      in snd (runAll [join 3 r 0 r [1,2,0,3], join 3 r 2 r [0,2,3,1]] w1))"

definition giesekingAndTetrahedron :: world where
  \<comment> \<open>the same, and a second triangulation made of one unglued tetrahedron\<close>
  "giesekingAndTetrahedron =
     (let (u, w0) = newTriangulation gieseking;
          (s, w1) = newSimplex 3 ''solo'' u w0
      in w1)"

definition giesekingCopied :: world where
  \<comment> \<open>the store after copy-constructing a second triangulation from the first\<close>
  "giesekingCopied = snd (copyTriangulation 3 0 gieseking)"

definition lock :: "nat \<Rightarrow> world \<Rightarrow> world" where
  \<comment> \<open>Modelled from the spec: the whole-simplex lock flag of a simplex is set.\<close>
  "lock s w = w\<lparr>heap := (heap w)(s := (heap w s)\<lparr>simplexLock := True\<rparr>)\<rparr>"

definition oneTetrahedron :: world where
  \<comment> \<open>one triangulation holding one unglued tetrahedron\<close>
  "oneTetrahedron =
     (let (t, w0) = newTriangulation emptyWorld; (s, w1) = newSimplex 3 [] t w0 in w1)"

definition foldedTetrahedron :: world where
  \<comment> \<open>one tetrahedron whose facet 0 is glued to its facet 1 by the permutation that swaps
      0 with 1 and 2 with 3, so that the edge joining vertices 2 and 3 is identified with
      itself in reverse; facets 2 and 3 stay boundary\<close>
  "foldedTetrahedron =
     (let (t, w0) = newTriangulation emptyWorld;
          (r, w1) = newSimplex 3 [] t w0
      in snd (runAll [join 3 r 0 r [1,0,3,2]] w1))"

section \<open>The pieces of a subdivided tetrahedron\<close>

definition tipPieces :: "nat list" where
  "tipPieces = map (tip numbering) [0..<4]"

definition interiorPieces :: "nat list" where
  "interiorPieces = map (interior numbering) [0..<4]"

definition edgePieces :: "nat list" where
  "edgePieces = map (\<lambda>(j, k). edge numbering j k)
                  (filter (\<lambda>(j, k). j \<noteq> k) (List.product [0..<4] [0..<4]))"

definition vertexPieces :: "nat list" where
  "vertexPieces = map (\<lambda>(j, k). vertex numbering j k)
                    (filter (\<lambda>(j, k). j \<noteq> k) (List.product [0..<4] [0..<4]))"

definition emptyTriangulation :: world where
  \<comment> \<open>one triangulation object with no simplices\<close>
  "emptyTriangulation = snd (newTriangulation emptyWorld)"

definition giesekingPunctured :: world where
  \<comment> \<open>the store after puncturing the Gieseking triangulation at its tetrahedron\<close>
  "giesekingPunctured = snd (puncture 0 (Some 0) gieseking)"

definition keeps :: "nat set \<Rightarrow> (nat \<Rightarrow> simplex) \<Rightarrow> nat \<Rightarrow> world \<Rightarrow> bool" where
  \<comment> \<open>The simplices at the addresses \<open>K\<close> exist and are as in \<open>h\<close>; the triangulation \<open>t\<close>
      owns none of them, its simplices exist, and its facets refer to its own simplices only.\<close>
  "keeps K h t v \<longleftrightarrow>
     (\<forall>a \<in> K. heap v a = h a \<and> a < nxt v) \<and>
     (\<forall>x \<in> set (simplices v t). x \<notin> K \<and> x < nxt v \<and>
        (\<forall>f \<le> 3. \<forall>a. adj (heap v x) f = Some a \<longrightarrow> a \<in> set (simplices v t)))"

definition tetrahedronPair :: world where
  \<comment> \<open>two triangulations, each made of one unglued tetrahedron\<close>
  "tetrahedronPair =
     (let (t, w0) = newTriangulation oneTetrahedron; (s, w1) = newSimplex 3 ''other'' t w0 in w1)"

definition boundaryTriangle0 :: "world \<Rightarrow> nat \<Rightarrow> embedding \<times> embedding option" where
  \<comment> \<open>what the skeleton answers for \<^verbatim>\<open>triangle(0)\<close> of a tetrahedron whose facet 0 is a
      boundary facet: one embedding, in that tetrahedron, with the vertices 1, 2, 3 of the
      triangle and 0 opposite\<close>
  "boundaryTriangle0 w s = ((s, [1,2,3,0]), None)"

definition embedsIn :: "(world \<Rightarrow> nat \<Rightarrow> embedding \<times> embedding option) \<Rightarrow> nat \<Rightarrow> bool" where
  \<comment> \<open>What is assumed of the skeleton: a triangle of a tetrahedron of triangulation \<open>t\<close> is
      embedded in tetrahedra of \<open>t\<close>, and the vertices of the front embedding put a facet
      number of a tetrahedron at position 3.\<close>
  "embedsIn triangle0 t \<longleftrightarrow>
     (\<forall>v x. x \<in> set (simplices v t) \<longrightarrow>
        fst (fst (triangle0 v x)) \<in> set (simplices v t) \<and>
        snd (fst (triangle0 v x)) ! 3 \<le> 3 \<and>
        (\<forall>emb2. snd (triangle0 v x) = Some emb2 \<longrightarrow> fst emb2 \<in> set (simplices v t)))"

definition tetrahedronPairInserted :: world where
  \<comment> \<open>the store after inserting a copy of the second triangulation into the first\<close>
  "tetrahedronPairInserted = snd (insertTriangulation 0 1 tetrahedronPair)"

definition tetrahedronPairSum :: world where
  \<comment> \<open>the store after the connected sum of the first triangulation with the second\<close>
  "tetrahedronPairSum = snd (connectedSumWith boundaryTriangle0 0 1 tetrahedronPair)"

section \<open>Properties of gluings\<close>

lemma preimage_nth: "distinct p \<Longrightarrow> f < length p \<Longrightarrow> preimage p (p ! f) = f"
proof (induction p arbitrary: f)
  case Nil
  then show ?case by simp
next
  case (Cons x xs)
  show ?case
  proof (cases f)
    case 0
    then show ?thesis by (simp add: preimage_def)
  next
    case (Suc k)
    with Cons.prems have k: "k < length xs" and nin: "x \<notin> set xs" and d: "distinct xs"
      by auto
    from k nin have "x \<noteq> xs ! k" by (metis nth_mem)
    moreover from Cons.IH [OF d k] have "preimage xs (xs ! k) = k" .
    ultimately show ?thesis using Suc by (simp add: preimage_def)
  qed
qed

lemma perm_inverse_nth:
  assumes "is_perm n p" "f < n"
  shows "perm_inverse p ! (p ! f) = f"
proof -
  from assms have len: "length p = n" and d: "distinct p" and "list_all (\<lambda>x. x < n) p"
    by (simp_all add: is_perm_def)
  then have "p ! f < length p" using assms(2) by (simp add: list_all_length)
  then have "perm_inverse p ! (p ! f) = preimage p (p ! f)"
    by (simp add: perm_inverse_def)
  also have "\<dots> = f" using d assms(2) len by (simp add: preimage_nth)
  finally show ?thesis .
qed

lemma join_success:
  "join dim me f you g w = (None, w') \<Longrightarrow>
     w' = joinRaw me f you g w \<and> f \<le> dim \<and> adj (heap w me) f = None
     \<and> adj (heap w you) (g ! f) = None \<and> \<not> (you = me \<and> g ! f = f)"
  by (auto simp: join_def split: if_splits)

lemma adj_joinRaw:
  "adj (heap (joinRaw me f you g w) a) k =
     (if a = you \<and> k = g ! f then Some me
      else if a = me \<and> k = f then Some you
      else adj (heap w a) k)"
  by (simp add: joinRaw_def Let_def)

lemma gluing_joinRaw:
  "gluing (heap (joinRaw me f you g w) a) k =
     (if a = you \<and> k = g ! f then perm_inverse g
      else if a = me \<and> k = f then g
      else gluing (heap w a) k)"
  by (simp add: joinRaw_def Let_def)

lemma slot_joinRaw:
  "slot (joinRaw me f you g w) a k =
     (if a = you \<and> k = g ! f then Some (me, perm_inverse g)
      else if a = me \<and> k = f then Some (you, g)
      else slot w a k)"
  by (auto simp add: slot_def adj_joinRaw gluing_joinRaw)

text \<open>
  Claim C1. When \<open>A.join(f, B, p)\<close> succeeds, the slot of \<open>B\<close> at facet \<open>g = p(f)\<close> holds
  exactly the pair \<open>(A, p\<inverse>)\<close>, and \<open>p\<inverse>(g) = f\<close>; the slot of \<open>A\<close> at \<open>f\<close> holds \<open>(B, p)\<close>. So a
  successful join establishes the symmetric two-sided gluing.
\<close>

theorem join_symmetric:
  assumes "join dim A f B p w = (None, w')" and "is_perm (Suc dim) p"
  shows "slot w' B (p ! f) = Some (A, perm_inverse p)
         \<and> perm_inverse p ! (p ! f) = f
         \<and> slot w' A f = Some (B, p)"
proof -
  from join_success [OF assms(1)]
  have w': "w' = joinRaw A f B p w" and f: "f \<le> dim" and ne: "\<not> (B = A \<and> p ! f = f)"
    by simp_all
  from f have "f < Suc dim" by simp
  with assms(2) have "perm_inverse p ! (p ! f) = f" by (rule perm_inverse_nth)
  moreover have "slot w' B (p ! f) = Some (A, perm_inverse p)"
    by (simp add: w' slot_joinRaw)
  moreover have "slot w' A f = Some (B, p)"
    using ne by (auto simp: w' slot_joinRaw)
  ultimately show ?thesis by simp
qed


lemma twoTetrahedra_heap:
  "adj (heap twoTetrahedra a) f = None" "\<not> simplexLock (heap twoTetrahedra a)"
  "\<not> facetLock (heap twoTetrahedra a) f"
  by (simp_all add: twoTetrahedra_def newTriangulation_def emptyWorld_def newSimplex_def
      new_def push_back_def Simplex_def Let_def)

theorem join_symmetric_witness:
  "join 3 0 1 1 [3,0,1,2] twoTetrahedra = (None, joinRaw 0 1 1 [3,0,1,2] twoTetrahedra)
   \<and> is_perm 4 [3,0,1,2]
   \<and> slot (joinRaw 0 1 1 [3,0,1,2] twoTetrahedra) 1 0 = Some (0, [1,2,3,0])
   \<and> slot (joinRaw 0 1 1 [3,0,1,2] twoTetrahedra) 0 1 = Some (1, [3,0,1,2])"
proof -
  have h1: "join 3 0 1 1 [3,0,1,2] twoTetrahedra = (None, joinRaw 0 1 1 [3,0,1,2] twoTetrahedra)"
    by (simp add: join_def twoTetrahedra_heap)
  have h2: "is_perm (Suc 3) [3,0,1,2]"
    by (simp add: is_perm_def)
  have inv: "perm_inverse [3,0,1,2] = [1,2,3,0]"
    by (simp add: perm_inverse_def preimage_def upt_rec)
  from join_symmetric [OF h1 h2] h1 h2 inv show ?thesis
    by simp
qed

lemma fold_setTri:
  "heap (fold (setTri t) xs w) a = (if a \<in> set xs then (heap w a)\<lparr>tri := t\<rparr> else heap w a)
   \<and> simplices (fold (setTri t) xs w) = simplices w
   \<and> nxt (fold (setTri t) xs w) = nxt w \<and> ntri (fold (setTri t) xs w) = ntri w"
  by (induction xs arbitrary: w) (auto simp: setTri_def)

lemma heap_swapContents:
  "heap (swapContents t u w) a =
     (if a \<in> set (simplices w t) then (heap w a)\<lparr>tri := u\<rparr>
      else if a \<in> set (simplices w u) then (heap w a)\<lparr>tri := t\<rparr>
      else heap w a)"
  by (simp add: swapContents_def Let_def fold_setTri)

lemma simplices_swapContents:
  "simplices (swapContents t u w) = (simplices w)(t := simplices w u, u := simplices w t)"
  by (simp add: swapContents_def Let_def fold_setTri)

text \<open>
  Claim C7. After \<open>T.swapContents(U)\<close> the two containers have exchanged their simplex
  sequences, and every simplex, at the address it had before, has the same facet slots
  and the same description: only its back-reference to the owning triangulation has
  changed, so that a simplex that was in \<open>T\<close> is now owned by \<open>U\<close> and conversely.
\<close>

theorem swapContents_identity:
  "simplices (swapContents T U w) T = simplices w U
   \<and> simplices (swapContents T U w) U = simplices w T
   \<and> (\<forall>a. heap (swapContents T U w) a = (heap w a)\<lparr>tri := tri (heap (swapContents T U w) a)\<rparr>)
   \<and> (\<forall>a f. slot (swapContents T U w) a f = slot w a f)
   \<and> (\<forall>a. description (heap (swapContents T U w) a) = description (heap w a))
   \<and> (\<forall>a \<in> set (simplices w T). tri (heap (swapContents T U w) a) = U)
   \<and> (\<forall>a \<in> set (simplices w U). a \<notin> set (simplices w T) \<longrightarrow> tri (heap (swapContents T U w) a) = T)"
  by (auto simp: heap_swapContents simplices_swapContents slot_def)

theorem swapContents_identity_witness:
  "simplices (swapContents 0 1 giesekingAndTetrahedron) 0 = [1]
   \<and> simplices (swapContents 0 1 giesekingAndTetrahedron) 1 = [0]
   \<and> slot (swapContents 0 1 giesekingAndTetrahedron) 0 0 = Some (0, [1,2,0,3])
   \<and> tri (heap (swapContents 0 1 giesekingAndTetrahedron) 0) = 1
   \<and> tri (heap (swapContents 0 1 giesekingAndTetrahedron) 1) = 0
   \<and> tri (heap giesekingAndTetrahedron 0) = 0"
proof -
  have m: "0 \<in> set (simplices giesekingAndTetrahedron 0)"
    "1 \<in> set (simplices giesekingAndTetrahedron 1)"
    "1 \<notin> set (simplices giesekingAndTetrahedron 0)"
    by code_simp+
  have s: "simplices giesekingAndTetrahedron 0 = [0]" "simplices giesekingAndTetrahedron 1 = [1]"
    "slot giesekingAndTetrahedron 0 0 = Some (0, [1,2,0,3])"
    "tri (heap giesekingAndTetrahedron 0) = 0"
    by code_simp+
  from swapContents_identity [of 0 1 giesekingAndTetrahedron] m s show ?thesis
    by metis
qed

lemma facets_all:
  "list_all P [0..<Suc dim] \<longleftrightarrow> (\<forall>f \<le> dim. P f)"
  by (auto simp: list_all_iff less_Suc_eq_le simp del: upt_Suc)

lemma wellFormed_iff:
  "wellFormed dim w t \<longleftrightarrow>
     t < ntri w \<and>
     (\<forall>i < length (simplices w t).
         simplices w t ! i < nxt w \<and> marking (heap w (simplices w t ! i)) = i \<and>
         (\<forall>f \<le> dim. \<forall>a. adj (heap w (simplices w t ! i)) f = Some a
              \<longrightarrow> a \<in> set (simplices w t)))"
  unfolding wellFormed_def facets_all
  by (auto simp: list_all_length nth_enumerate_eq split: option.splits)

lemma wellFormedD:
  assumes "wellFormed dim w t"
  shows "t < ntri w"
    and "\<And>i. i < length (simplices w t) \<Longrightarrow> marking (heap w (simplices w t ! i)) = i"
    and "\<And>s. s \<in> set (simplices w t) \<Longrightarrow> s < nxt w"
    and "\<And>s f a. s \<in> set (simplices w t) \<Longrightarrow> f \<le> dim \<Longrightarrow> adj (heap w s) f = Some a
           \<Longrightarrow> a \<in> set (simplices w t)"
  using assms unfolding wellFormed_iff in_set_conv_nth by blast+

lemma wellFormed_member:
  assumes "wellFormed dim w t" "a \<in> set (simplices w t)"
  shows "marking (heap w a) < length (simplices w t) \<and> simplices w t ! marking (heap w a) = a"
proof -
  from assms(2) obtain i where "i < length (simplices w t)" "simplices w t ! i = a"
    by (auto simp: in_set_conv_nth)
  with wellFormedD(2) [OF assms(1), of i] show ?thesis by auto
qed

lemma isIdenticalTo_nth:
  "isIdenticalTo dim w T U \<longleftrightarrow>
     length (simplices w T) = length (simplices w U) \<and>
     (\<forall>i < length (simplices w T). \<forall>f \<le> dim.
         facetIdentical w T (simplices w T ! i) (simplices w U ! i) f)"
  by (auto simp: isIdenticalTo_def list_all_length list_all_iff less_Suc_eq_le simp del: upt_Suc)

lemma facetIdentical_target:
  assumes T: "wellFormed dim w T" and U: "wellFormed dim w U"
    and len: "length (simplices w T) = length (simplices w U)"
    and me: "me \<in> set (simplices w T)" and you: "you \<in> set (simplices w U)" and f: "f \<le> dim"
  shows "facetIdentical w T me you f \<longleftrightarrow> target w me f = target w you f"
proof (cases "adj (heap w you) f")
  case None
  then show ?thesis by (auto simp: facetIdentical_def target_def)
next
  case (Some b)
  with U you f have b: "b \<in> set (simplices w U)" by (metis wellFormedD(4))
  from wellFormed_member [OF U b] len
  have k: "marking (heap w b) < length (simplices w T)" by simp
  let ?x = "simplices w T ! marking (heap w b)"
  from k have x: "?x \<in> set (simplices w T)" by simp
  from wellFormedD(2) [OF T k] have mx: "marking (heap w ?x) = marking (heap w b)" .
  show ?thesis
  proof (cases "adj (heap w me) f")
    case None
    with Some show ?thesis by (simp add: facetIdentical_def target_def)
  next
    case a: (Some a)
    with T me f have "a \<in> set (simplices w T)" by (metis wellFormedD(4))
    from wellFormed_member [OF T this]
    have eq: "simplices w T ! marking (heap w a) = a" by simp
    have "a = ?x \<longleftrightarrow> marking (heap w a) = marking (heap w b)"
      using eq mx by metis
    with Some a show ?thesis by (auto simp: facetIdentical_def target_def)
  qed
qed

lemma heap_relabel [simp]:
  "adj (heap (relabel d w) a) = adj (heap w a)"
  "gluing (heap (relabel d w) a) = gluing (heap w a)"
  "marking (heap (relabel d w) a) = marking (heap w a)"
  "simplices (relabel d w) = simplices w"
  by (simp_all add: relabel_def)

text \<open>
  Claim C9. \<open>T.isIdenticalTo(U)\<close> is true if and only if \<open>T\<close> and \<open>U\<close> have equally many
  simplices and, for every index \<open>i\<close> and facet \<open>f\<close>, the facets \<open>f\<close> of the two simplices at
  index \<open>i\<close> are both boundary or are both glued, to the same simplex index with the same
  permutation; and the result is the same whatever the descriptions of the simplices
  are. Here \<open>T\<close> and \<open>U\<close> satisfy the invariants of the data model.
\<close>

theorem isIdenticalTo_iff:
  assumes "wellFormed dim w T" and "wellFormed dim w U"
  shows "(isIdenticalTo dim w T U \<longleftrightarrow>
            length (simplices w T) = length (simplices w U) \<and>
            (\<forall>i < length (simplices w T). \<forall>f \<le> dim.
                target w (simplices w T ! i) f = target w (simplices w U ! i) f))
         \<and> isIdenticalTo dim (relabel d w) T U = isIdenticalTo dim w T U"
proof -
  have "facetIdentical (relabel d w) = facetIdentical w"
    by (auto simp: facetIdentical_def fun_eq_iff split: option.splits)
  then have "isIdenticalTo dim (relabel d w) T U = isIdenticalTo dim w T U"
    by (simp add: isIdenticalTo_def)
  moreover have "isIdenticalTo dim w T U \<longleftrightarrow>
            length (simplices w T) = length (simplices w U) \<and>
            (\<forall>i < length (simplices w T). \<forall>f \<le> dim.
                target w (simplices w T ! i) f = target w (simplices w U ! i) f)"
    using facetIdentical_target [OF assms]
    by (auto simp: isIdenticalTo_nth)
  ultimately show ?thesis by simp
qed

theorem isIdenticalTo_iff_witness:
  "wellFormed 3 giesekingCopied 0 \<and> wellFormed 3 giesekingCopied 1
   \<and> isIdenticalTo 3 giesekingCopied 0 1
   \<and> isIdenticalTo 3 (relabel (\<lambda>_. ''renamed'') giesekingCopied) 0 1
   \<and> target giesekingCopied 0 2 = target giesekingCopied 1 2"
proof -
  have h: "wellFormed 3 giesekingCopied 0" "wellFormed 3 giesekingCopied 1" by code_simp+
  have i: "isIdenticalTo 3 giesekingCopied 0 1" by code_simp
  have s: "simplices giesekingCopied 0 = [0]" "simplices giesekingCopied 1 = [1]" by code_simp+
  note T = isIdenticalTo_iff [OF h, of "\<lambda>_. ''renamed''"]
  from T i have r: "isIdenticalTo 3 (relabel (\<lambda>_. ''renamed'') giesekingCopied) 0 1" by simp
  from T i have "\<forall>i < length (simplices giesekingCopied 0). \<forall>f \<le> 3.
      target giesekingCopied (simplices giesekingCopied 0 ! i) f
        = target giesekingCopied (simplices giesekingCopied 1 ! i) f" by simp
  moreover have "(0::nat) < length (simplices giesekingCopied 0)" "(2::nat) \<le> 3"
    by (simp_all add: s)
  ultimately have "target giesekingCopied (simplices giesekingCopied 0 ! 0) 2
      = target giesekingCopied (simplices giesekingCopied 1 ! 0) 2" by blast
  then have "target giesekingCopied 0 2 = target giesekingCopied 1 2" unfolding s by simp
  with r show ?thesis using h i by simp
qed

lemma pushCopy_fields:
  "nxt (pushCopy dim U y v) = Suc (nxt v)"
  "ntri (pushCopy dim U y v) = ntri v"
  "simplices (pushCopy dim U y v) = (simplices v)(U := simplices v U @ [nxt v])"
  "heap (pushCopy dim U y v) a =
     (if a = nxt v
      then (Simplex dim (description (heap v y)) U)\<lparr>marking := length (simplices v U)\<rparr>
      else heap v a)"
  by (simp_all add: pushCopy_def new_def push_back_def)

lemma fold_pushCopy:
  assumes "\<forall>y \<in> set ys. y < nxt w"
  shows "nxt (fold (pushCopy dim U) ys w) = nxt w + length ys
    \<and> ntri (fold (pushCopy dim U) ys w) = ntri w
    \<and> simplices (fold (pushCopy dim U) ys w)
        = (simplices w)(U := simplices w U @ [nxt w ..< nxt w + length ys])
    \<and> (\<forall>a < nxt w. heap (fold (pushCopy dim U) ys w) a = heap w a)
    \<and> (\<forall>i < length ys. heap (fold (pushCopy dim U) ys w) (nxt w + i)
          = (Simplex dim (description (heap w (ys ! i))) U)\<lparr>marking := length (simplices w U) + i\<rparr>)"
  using assms
proof (induction ys rule: rev_induct)
  case Nil
  then show ?case by simp
next
  case (snoc y ys)
  let ?v = "fold (pushCopy dim U) ys w"
  from snoc.prems have "\<forall>y \<in> set ys. y < nxt w" by simp
  from snoc.IH [OF this] have IH: "nxt ?v = nxt w + length ys" "ntri ?v = ntri w"
    "simplices ?v = (simplices w)(U := simplices w U @ [nxt w ..< nxt w + length ys])"
    "\<forall>a < nxt w. heap ?v a = heap w a"
    "\<forall>i < length ys. heap ?v (nxt w + i)
          = (Simplex dim (description (heap w (ys ! i))) U)\<lparr>marking := length (simplices w U) + i\<rparr>"
    by blast+
  from snoc.prems have y: "y < nxt w" by simp
  with IH(4) have hy: "heap ?v y = heap w y" by simp
  have step: "fold (pushCopy dim U) (ys @ [y]) w = pushCopy dim U y ?v" by simp
  show ?case
    unfolding step
    using IH hy by (auto simp: pushCopy_fields nth_append less_Suc_eq)
qed


lemma copyFacet_fields:
  "simplices (copyFacet this me you f w) = simplices w"
  "nxt (copyFacet this me you f w) = nxt w"
  "ntri (copyFacet this me you f w) = ntri w"
  "marking (heap (copyFacet this me you f w) a) = marking (heap w a)"
  "a \<noteq> me \<Longrightarrow> heap (copyFacet this me you f w) a = heap w a"
  "adj (heap (copyFacet this me you f w) me) k =
     (if k = f then map_option (\<lambda>b. simplices w this ! marking (heap w b)) (adj (heap w you) f)
      else adj (heap w me) k)"
  "gluing (heap (copyFacet this me you f w) me) k =
     (if k = f \<and> adj (heap w you) f \<noteq> None then gluing (heap w you) f
      else gluing (heap w me) k)"
  by (auto simp: copyFacet_def split: option.splits)

lemma fold_copyFacet:
  assumes "me \<noteq> you"
  shows "simplices (fold (copyFacet this me you) fs w) = simplices w
    \<and> nxt (fold (copyFacet this me you) fs w) = nxt w
    \<and> ntri (fold (copyFacet this me you) fs w) = ntri w
    \<and> (\<forall>a. marking (heap (fold (copyFacet this me you) fs w) a) = marking (heap w a))
    \<and> (\<forall>a. a \<noteq> me \<longrightarrow> heap (fold (copyFacet this me you) fs w) a = heap w a)
    \<and> (\<forall>k. adj (heap (fold (copyFacet this me you) fs w) me) k =
          (if k \<in> set fs
           then map_option (\<lambda>b. simplices w this ! marking (heap w b)) (adj (heap w you) k)
           else adj (heap w me) k))
    \<and> (\<forall>k. gluing (heap (fold (copyFacet this me you) fs w) me) k =
          (if k \<in> set fs \<and> adj (heap w you) k \<noteq> None then gluing (heap w you) k
           else gluing (heap w me) k))"
proof (induction fs arbitrary: w)
  case Nil
  then show ?case by simp
next
  case (Cons f fs)
  let ?v = "copyFacet this me you f w"
  have you: "heap ?v you = heap w you"
    using assms by (simp add: copyFacet_fields)
  show ?case
    using Cons.IH [of ?v] you
    by (simp add: copyFacet_fields del: not_None_eq)
qed


lemma copySimplex_fields:
  assumes "me \<noteq> you"
  shows "simplices (copySimplex dim this (me, you) w) = simplices w"
    "nxt (copySimplex dim this (me, you) w) = nxt w"
    "ntri (copySimplex dim this (me, you) w) = ntri w"
    "marking (heap (copySimplex dim this (me, you) w) a) = marking (heap w a)"
    "a \<noteq> me \<Longrightarrow> heap (copySimplex dim this (me, you) w) a = heap w a"
    "adj (heap (copySimplex dim this (me, you) w) me) k =
       (if k \<le> dim
        then map_option (\<lambda>b. simplices w this ! marking (heap w b)) (adj (heap w you) k)
        else adj (heap w me) k)"
    "gluing (heap (copySimplex dim this (me, you) w) me) k =
       (if k \<le> dim \<and> adj (heap w you) k \<noteq> None then gluing (heap w you) k
        else gluing (heap w me) k)"
  using fold_copyFacet [OF assms, where this = this and fs = "[0..<Suc dim]" and w = w]
  by (simp_all add: copySimplex_def less_Suc_eq_le del: upt_Suc)

lemma fold_copySimplex:
  assumes "distinct (map fst ps)" and "\<forall>p \<in> set ps. fst p \<notin> snd ` set ps"
  shows "simplices (fold (copySimplex dim this) ps w) = simplices w
    \<and> nxt (fold (copySimplex dim this) ps w) = nxt w
    \<and> ntri (fold (copySimplex dim this) ps w) = ntri w
    \<and> (\<forall>a. marking (heap (fold (copySimplex dim this) ps w) a) = marking (heap w a))
    \<and> (\<forall>a. a \<notin> fst ` set ps \<longrightarrow> heap (fold (copySimplex dim this) ps w) a = heap w a)
    \<and> (\<forall>p \<in> set ps. \<forall>k.
          adj (heap (fold (copySimplex dim this) ps w) (fst p)) k =
            (if k \<le> dim
             then map_option (\<lambda>b. simplices w this ! marking (heap w b)) (adj (heap w (snd p)) k)
             else adj (heap w (fst p)) k)
          \<and> gluing (heap (fold (copySimplex dim this) ps w) (fst p)) k =
            (if k \<le> dim \<and> adj (heap w (snd p)) k \<noteq> None then gluing (heap w (snd p)) k
             else gluing (heap w (fst p)) k))"
  using assms
proof (induction ps arbitrary: w)
  case Nil
  then show ?case by simp
next
  case (Cons p ps)
  obtain me you where p: "p = (me, you)" by (cases p)
  let ?v = "copySimplex dim this (me, you) w"
  let ?r = "fold (copySimplex dim this) ps ?v"
  from Cons.prems p have ne: "me \<noteq> you" and me: "me \<notin> fst ` set ps"
    and d: "distinct (map fst ps)" and s: "\<forall>q \<in> set ps. fst q \<notin> snd ` set ps"
    and nme: "\<forall>q \<in> set ps. snd q \<noteq> me \<and> fst q \<noteq> me"
    by (auto simp: image_iff)
  note IH = Cons.IH [OF d s, of ?v]
  note F = copySimplex_fields [OF ne, where dim = dim and this = this and w = w]
  have 1: "simplices ?r = simplices w" "nxt ?r = nxt w" "ntri ?r = ntri w"
    "\<forall>a. marking (heap ?r a) = marking (heap w a)"
    using IH F(1-4) by simp_all
  have 2: "\<forall>a. a \<notin> fst ` set (p # ps) \<longrightarrow> heap ?r a = heap w a"
    using IH F(5) p by auto
  have 3: "heap ?r me = heap ?v me" using IH me by simp
  have 4: "\<forall>q \<in> set ps. heap ?v (fst q) = heap w (fst q) \<and> heap ?v (snd q) = heap w (snd q)"
    using nme F(5) by simp
  have 5: "\<forall>q \<in> set (p # ps). \<forall>k.
          adj (heap ?r (fst q)) k =
            (if k \<le> dim
             then map_option (\<lambda>b. simplices w this ! marking (heap w b)) (adj (heap w (snd q)) k)
             else adj (heap w (fst q)) k)
          \<and> gluing (heap ?r (fst q)) k =
            (if k \<le> dim \<and> adj (heap w (snd q)) k \<noteq> None then gluing (heap w (snd q)) k
             else gluing (heap w (fst q)) k)"
  proof
    fix q assume "q \<in> set (p # ps)"
    then consider "q = p" | "q \<in> set ps" by auto
    then show "\<forall>k.
          adj (heap ?r (fst q)) k =
            (if k \<le> dim
             then map_option (\<lambda>b. simplices w this ! marking (heap w b)) (adj (heap w (snd q)) k)
             else adj (heap w (fst q)) k)
          \<and> gluing (heap ?r (fst q)) k =
            (if k \<le> dim \<and> adj (heap w (snd q)) k \<noteq> None then gluing (heap w (snd q)) k
             else gluing (heap w (fst q)) k)"
    proof cases
      case 1
      then show ?thesis using 3 F(6,7) p by auto
    next
      case 2
      with IH 4 F(1,4) show ?thesis by auto
    qed
  qed
  have eq: "fold (copySimplex dim this) (p # ps) w = ?r" by (simp add: p)
  show ?case unfolding eq by (intro conjI 1 2 5)
qed


lemma copyTriangulation_result:
  assumes wf: "wellFormed dim w T" and c: "copyTriangulation dim T w = (U, w')"
  defines "Ts \<equiv> simplices w T" and "Us \<equiv> [nxt w ..< nxt w + length (simplices w T)]"
  shows "U = ntri w" and "simplices w' = (simplices w)(U := Us)"
    and "nxt w' = nxt w + length Ts" and "ntri w' = Suc (ntri w)"
    and "\<And>a. a < nxt w \<Longrightarrow> heap w' a = heap w a"
    and "\<And>i. i < length Ts \<Longrightarrow> marking (heap w' (Us ! i)) = i"
    and "\<And>i k. i < length Ts \<Longrightarrow> k \<le> dim \<Longrightarrow>
            adj (heap w' (Us ! i)) k = map_option (\<lambda>b. Us ! marking (heap w b)) (adj (heap w (Ts ! i)) k)"
    and "\<And>i k b. i < length Ts \<Longrightarrow> k \<le> dim \<Longrightarrow> adj (heap w (Ts ! i)) k = Some b \<Longrightarrow>
            gluing (heap w' (Us ! i)) k = gluing (heap w (Ts ! i)) k"
proof -
  define w0 where "w0 = w\<lparr>simplices := (simplices w)(ntri w := []), ntri := Suc (ntri w)\<rparr>"
  define w1 where "w1 = fold (pushCopy dim (ntri w)) Ts w0"
  from wf have TU: "T \<noteq> ntri w" and old: "\<forall>y \<in> set Ts. y < nxt w0"
    using wellFormedD(1,3) [OF wf] by (auto simp: Ts_def w0_def)
  have w0: "simplices w0 T = Ts" "nxt w0 = nxt w" "heap w0 = heap w" "simplices w0 (ntri w) = []"
    using TU by (simp_all add: w0_def Ts_def)
  note P = fold_pushCopy [OF old, of dim "ntri w", folded w1_def, unfolded w0]
  from P have s1: "simplices w1 = (simplices w0)(ntri w := Us)"
    and n1: "nxt w1 = nxt w + length Ts" and t1: "ntri w1 = ntri w0"
    and h1: "\<forall>a < nxt w. heap w1 a = heap w a"
    and m1: "\<forall>i < length Ts. heap w1 (nxt w + i)
               = (Simplex dim (description (heap w (Ts ! i))) (ntri w))\<lparr>marking := i\<rparr>"
    by (simp_all add: Us_def Ts_def)
  have s1U: "simplices w1 (ntri w) = Us" and s1T: "simplices w1 T = Ts"
    using TU w0 by (simp_all add: s1)
  from c have U: "U = ntri w"
    and w': "w' = fold (copySimplex dim (ntri w)) (zip Us Ts) w1"
    by (auto simp add: copyTriangulation_def newTriangulation_def Let_def
        w0_def [symmetric] w0 w1_def [symmetric] s1U s1T)
  have len: "length Us = length Ts" by (simp add: Us_def Ts_def)
  have d: "distinct (map fst (zip Us Ts))" using len by (simp add: Us_def)
  have sep: "\<forall>p \<in> set (zip Us Ts). fst p \<notin> snd ` set (zip Us Ts)"
  proof
    fix p assume "p \<in> set (zip Us Ts)"
    then have "fst p \<in> set Us" by (metis in_set_zipE prod.collapse)
    then have "nxt w \<le> fst p" by (simp add: Us_def)
    moreover have "\<forall>y \<in> snd ` set (zip Us Ts). y < nxt w"
      using old w0 by (auto dest: set_zip_rightD)
    ultimately show "fst p \<notin> snd ` set (zip Us Ts)" by auto
  qed
  note C = fold_copySimplex [OF d sep, of dim "ntri w" w1, folded w']
  show "U = ntri w" by (rule U)
  show "simplices w' = (simplices w)(U := Us)"
    using C s1 by (simp add: U w0_def)
  show "nxt w' = nxt w + length Ts" using C n1 by simp
  show "ntri w' = Suc (ntri w)" using C t1 by (simp add: w0_def)
  have fsts: "fst ` set (zip Us Ts) = set Us"
    using len by (metis map_fst_zip set_map)
  show "heap w' a = heap w a" if "a < nxt w" for a
  proof -
    from that have "a \<notin> set Us" by (simp add: Us_def)
    with C fsts have "heap w' a = heap w1 a" by simp
    with h1 that show ?thesis by simp
  qed
  have Usi: "Us ! i = nxt w + i" if "i < length Ts" for i
    using that by (simp add: Us_def Ts_def)
  show "marking (heap w' (Us ! i)) = i" if "i < length Ts" for i
    using C m1 that by (simp add: Usi)
  have mem: "(Us ! i, Ts ! i) \<in> set (zip Us Ts)" if "i < length Ts" for i
    using that len by (auto simp: set_zip)
  have adj1: "adj (heap w1 (Us ! i)) k = None" and hT: "heap w1 (Ts ! i) = heap w (Ts ! i)"
    if "i < length Ts" for i k
    using that m1 h1 old w0 by (simp_all add: Usi Simplex_def)
  have mk: "marking (heap w1 b) = marking (heap w b)" if "b \<in> set Ts" for b
    using that h1 old w0 by simp
  show "adj (heap w' (Us ! i)) k = map_option (\<lambda>b. Us ! marking (heap w b)) (adj (heap w (Ts ! i)) k)"
    if i: "i < length Ts" and k: "k \<le> dim" for i k
  proof -
    from C mem [OF i] k
    have "adj (heap w' (Us ! i)) k =
            map_option (\<lambda>b. simplices w1 (ntri w) ! marking (heap w1 b)) (adj (heap w1 (Ts ! i)) k)"
      by fastforce
    also have "\<dots> = map_option (\<lambda>b. Us ! marking (heap w b)) (adj (heap w (Ts ! i)) k)"
    proof (cases "adj (heap w (Ts ! i)) k")
      case None
      then show ?thesis by (simp add: hT [OF i])
    next
      case (Some b)
      with wellFormedD(4) [OF wf, of "Ts ! i" k b] i k have "b \<in> set Ts"
        by (simp add: Ts_def)
      with Some show ?thesis by (simp add: hT [OF i] s1U mk)
    qed
    finally show ?thesis .
  qed
  show "gluing (heap w' (Us ! i)) k = gluing (heap w (Ts ! i)) k"
    if i: "i < length Ts" and k: "k \<le> dim" and b: "adj (heap w (Ts ! i)) k = Some b" for i k b
  proof -
    from C mem [OF i] k
    have "gluing (heap w' (Us ! i)) k =
            (if k \<le> dim \<and> adj (heap w1 (Ts ! i)) k \<noteq> None then gluing (heap w1 (Ts ! i)) k
             else gluing (heap w1 (Us ! i)) k)"
      by fastforce
    with b k show ?thesis by (simp add: hT [OF i])
  qed
qed


text \<open>
  Claim C2. Copy-constructing \<open>U\<close> from a triangulation \<open>T\<close> gives \<open>T.isIdenticalTo(U)\<close>:
  the copy has as many simplices, every facet of the copy has the same boundary or glued
  status, the same adjacent-simplex index and the same gluing permutation as in \<open>T\<close>, every
  simplex that a facet of the copy refers to is a simplex of the copy, and the copy shares
  no simplex with \<open>T\<close>. Here \<open>T\<close> satisfies the invariants of the data model.
\<close>

theorem copy_isIdenticalTo:
  assumes wf: "wellFormed dim w T" and c: "copyTriangulation dim T w = (U, w')"
  shows "isIdenticalTo dim w' T U
    \<and> length (simplices w' U) = length (simplices w' T)
    \<and> (\<forall>i < length (simplices w' T). \<forall>f \<le> dim.
          target w' (simplices w' U ! i) f = target w' (simplices w' T ! i) f)
    \<and> (\<forall>s \<in> set (simplices w' U). \<forall>f \<le> dim. \<forall>a.
          adj (heap w' s) f = Some a \<longrightarrow> a \<in> set (simplices w' U))
    \<and> set (simplices w' U) \<inter> set (simplices w' T) = {}
    \<and> U \<noteq> T"
proof -
  let ?Ts = "simplices w T" and ?Us = "[nxt w ..< nxt w + length (simplices w T)]"
  note R = copyTriangulation_result [OF wf c]
  from wellFormedD(1) [OF wf] R(1) have UT: "U \<noteq> T" by simp
  have sU: "simplices w' U = ?Us" and sT: "simplices w' T = ?Ts"
    using UT by (simp_all add: R(2))
  have old: "s < nxt w" if "s \<in> set ?Ts" for s using wellFormedD(3) [OF wf that] .
  have hT: "heap w' (?Ts ! i) = heap w (?Ts ! i)" if "i < length ?Ts" for i
    using R(5) old that by simp
  have mT: "marking (heap w b) < length ?Ts \<and> ?Ts ! marking (heap w b) = b
            \<and> marking (heap w' b) = marking (heap w b)" if "b \<in> set ?Ts" for b
    using wellFormed_member [OF wf that] R(5) [OF old [OF that]] by simp
  have adjT: "b \<in> set ?Ts" if "i < length ?Ts" "f \<le> dim" "adj (heap w (?Ts ! i)) f = Some b" for i f b
    using wellFormedD(4) [OF wf _ that(2,3)] that(1) by simp
  have wfT: "wellFormed dim w' T"
    unfolding wellFormed_iff sT
  proof (intro conjI allI impI)
    show "T < ntri w'" using wellFormedD(1) [OF wf] R(4) by simp
  next
    fix i assume i: "i < length ?Ts"
    then show "?Ts ! i < nxt w'" using old R(3) by (simp add: trans_less_add1)
    show "marking (heap w' (?Ts ! i)) = i" using hT [OF i] wellFormedD(2) [OF wf i] by simp
    fix f a assume "f \<le> dim" "adj (heap w' (?Ts ! i)) f = Some a"
    then show "a \<in> set ?Ts" using adjT [OF i] hT [OF i] by simp
  qed
  have wfU: "wellFormed dim w' U"
    unfolding wellFormed_iff sU
  proof (intro conjI allI impI)
    show "U < ntri w'" using R(1,4) by simp
  next
    fix i assume "i < length ?Us"
    then have i: "i < length ?Ts" by simp
    then show "?Us ! i < nxt w'" using R(3) by simp
    show "marking (heap w' (?Us ! i)) = i" using R(6) [OF i] .
    fix f a assume f: "f \<le> dim" and a: "adj (heap w' (?Us ! i)) f = Some a"
    from a R(7) [OF i f] obtain b where b: "adj (heap w (?Ts ! i)) f = Some b"
      and ab: "a = ?Us ! marking (heap w b)" by auto
    from mT [OF adjT [OF i f b]] have "marking (heap w b) < length ?Us" by simp
    then show "a \<in> set ?Us" unfolding ab by (rule nth_mem)
  qed
  have tgt: "target w' (?Us ! i) f = target w' (?Ts ! i) f"
    if i: "i < length ?Ts" and f: "f \<le> dim" for i f
  proof (cases "adj (heap w (?Ts ! i)) f")
    case None
    then show ?thesis using R(7) [OF i f] hT [OF i] by (simp add: target_def)
  next
    case (Some b)
    note m = mT [OF adjT [OF i f Some]]
    from m have "marking (heap w' (?Us ! marking (heap w b))) = marking (heap w b)"
      using R(6) by blast
    then show ?thesis
      using Some R(7) [OF i f] R(8) [OF i f Some] hT [OF i] m
      by (simp add: target_def)
  qed
  have len: "length (simplices w' T) = length (simplices w' U)" by (simp add: sU sT)
  have ident: "isIdenticalTo dim w' T U"
    unfolding isIdenticalTo_nth
  proof (intro conjI allI impI)
    show "length (simplices w' T) = length (simplices w' U)" by (rule len)
  next
    fix i f assume i: "i < length (simplices w' T)" and f: "f \<le> dim"
    then have i': "i < length ?Ts" by (simp add: sT)
    have "simplices w' T ! i \<in> set (simplices w' T)" "simplices w' U ! i \<in> set (simplices w' U)"
      using i len by simp_all
    from facetIdentical_target [OF wfT wfU len this f] tgt [OF i' f]
    show "facetIdentical w' T (simplices w' T ! i) (simplices w' U ! i) f"
      by (simp add: sU sT)
  qed
  have disj: "set (simplices w' U) \<inter> set (simplices w' T) = {}"
  proof -
    have "\<not> x < nxt w" if "x \<in> set ?Us" for x using that by simp
    with old show ?thesis unfolding sU sT by blast
  qed
  have closed: "\<forall>s \<in> set (simplices w' U). \<forall>f \<le> dim. \<forall>a.
          adj (heap w' s) f = Some a \<longrightarrow> a \<in> set (simplices w' U)"
    using wellFormedD(4) [OF wfU] by blast
  have tgt': "\<forall>i < length (simplices w' T). \<forall>f \<le> dim.
          target w' (simplices w' U ! i) f = target w' (simplices w' T ! i) f"
    unfolding sU sT using tgt by blast
  show ?thesis
    by (intro conjI ident len [symmetric] tgt' closed disj UT)
qed

theorem copy_isIdenticalTo_witness:
  "wellFormed 3 gieseking 0
   \<and> copyTriangulation 3 0 gieseking = (1, giesekingCopied)
   \<and> isIdenticalTo 3 giesekingCopied 0 1
   \<and> simplices giesekingCopied 0 = [0] \<and> simplices giesekingCopied 1 = [1]
   \<and> target giesekingCopied 1 0 = Some (0, [1,2,0,3])
   \<and> slot giesekingCopied 1 0 = Some (1, [1,2,0,3])"
proof -
  have h: "wellFormed 3 gieseking 0" by code_simp
  have "fst (copyTriangulation 3 0 gieseking) = 1" by code_simp
  then have c: "copyTriangulation 3 0 gieseking = (1, giesekingCopied)"
    by (simp add: giesekingCopied_def prod_eq_iff)
  from copy_isIdenticalTo [OF h c] have "isIdenticalTo 3 giesekingCopied 0 1" by blast
  moreover have "simplices giesekingCopied 0 = [0]" "simplices giesekingCopied 1 = [1]"
    "target giesekingCopied 1 0 = Some (0, [1,2,0,3])"
    "slot giesekingCopied 1 0 = Some (1, [1,2,0,3])"
    by code_simp+
  ultimately show ?thesis using h c by blast
qed


section \<open>Properties of idealToFinite\<close>

text \<open>
  Claim C3 says that on every triangulation with no ideal and no invalid vertex,
  \<open>idealToFinite()\<close> returns false and changes nothing. The source returns early on
  \<open>isValid() && ! isIdeal()\<close>, and \<open>isValid()\<close> is also false when an edge is invalid.
  In \<open>foldedTetrahedron\<close> facet 0 is glued to facet 1 by the permutation that swaps 0 with 1
  and 2 with 3: the edge from vertex 2 to vertex 3 is identified with itself in reverse,
  while the links of the two vertex classes, 0 with 1 and 2 with 3, are discs, so no vertex
  is ideal or invalid. The skeleton answers are therefore \<open>isValid() = false\<close> and
  \<open>isIdeal() = false\<close>; the triangulation is not empty and holds no lock, so the call goes
  past the early return, subdivides, and returns true. The value returned does not depend
  on which pieces the skeleton of the staging triangulation selects for removal.
\<close>

theorem idealToFinite_invalid_edge_counterexample:
  "simplices foldedTetrahedron 0 = [0]
   \<and> slot foldedTetrahedron 0 0 = Some (0, [1,0,3,2])
   \<and> slot foldedTetrahedron 0 1 = Some (0, [1,0,3,2])
   \<and> slot foldedTetrahedron 0 2 = None
   \<and> slot foldedTetrahedron 0 3 = None
   \<and> \<not> hasLocks foldedTetrahedron 0
   \<and> fst (idealToFinite False False (\<lambda>_ _. []) 0 foldedTetrahedron) = Inr True"
proof -
  have e: "simplices foldedTetrahedron 0 = [0]"
    "slot foldedTetrahedron 0 0 = Some (0, [1,0,3,2])"
    "slot foldedTetrahedron 0 1 = Some (0, [1,0,3,2])"
    "slot foldedTetrahedron 0 2 = None"
    "slot foldedTetrahedron 0 3 = None"
    "\<not> hasLocks foldedTetrahedron 0"
    by code_simp+
  from e(1,6)
  have "fst (idealToFinite False False (\<lambda>_ _. []) 0 foldedTetrahedron) = Inr True"
    by (simp add: idealToFinite_def split_beta Let_def)
  with e show ?thesis by simp
qed

text \<open>
  Claim C3, amended. On a triangulation that is empty, or for which \<open>isValid()\<close> holds and
  \<open>isIdeal()\<close> does not (no ideal vertex, no invalid vertex and no invalid edge),
  \<open>idealToFinite()\<close> returns false and leaves the store as it was: the size is the same, and
  \<open>isIdenticalTo\<close> any triangulation \<open>c\<close>, such as a copy taken before the call, answers as
  before.
\<close>

theorem idealToFinite_unchanged:
  assumes "simplices w this = [] \<or> (valid \<and> \<not> ideal)"
  shows "idealToFinite valid ideal tetList this w = (Inr False, w)
    \<and> size_tri (snd (idealToFinite valid ideal tetList this w)) this = size_tri w this
    \<and> isIdenticalTo 3 (snd (idealToFinite valid ideal tetList this w)) this c
        = isIdenticalTo 3 w this c"
  using assms by (auto simp: idealToFinite_def)

theorem idealToFinite_unchanged_witness:
  "simplices emptyTriangulation 0 = []
   \<and> idealToFinite False True (\<lambda>_ _. []) 0 emptyTriangulation = (Inr False, emptyTriangulation)
   \<and> simplices oneTetrahedron 0 = [0]
   \<and> idealToFinite True False (\<lambda>_ _. []) 0 oneTetrahedron = (Inr False, oneTetrahedron)"
proof -
  have e: "simplices emptyTriangulation 0 = []" "simplices oneTetrahedron 0 = [0]" by code_simp+
  from e(1) have 1: "simplices emptyTriangulation 0 = [] \<or> (False \<and> \<not> True)" by simp
  have 2: "simplices oneTetrahedron 0 = [] \<or> (True \<and> \<not> False)" by simp
  from idealToFinite_unchanged [OF 1] idealToFinite_unchanged [OF 2] e show ?thesis
    by blast
qed

text \<open>
  Claim C4 says that on every non-empty triangulation with a lock, \<open>idealToFinite()\<close>
  throws \<open>LockViolation\<close>. The source tests \<open>isValid() && ! isIdeal()\<close> before it looks at
  the locks: a single locked tetrahedron with no gluings is valid and not ideal, and the
  call returns false without throwing.
\<close>

theorem idealToFinite_locked_counterexample:
  "simplices (lock 0 oneTetrahedron) 0 \<noteq> []
   \<and> hasLocks (lock 0 oneTetrahedron) 0
   \<and> idealToFinite True False (\<lambda>_ _. []) 0 (lock 0 oneTetrahedron)
        = (Inr False, lock 0 oneTetrahedron)"
proof -
  have "simplices (lock 0 oneTetrahedron) 0 \<noteq> []" "hasLocks (lock 0 oneTetrahedron) 0"
    by code_simp+
  then show ?thesis by (simp add: idealToFinite_def)
qed

text \<open>
  Claim C4, amended. On a non-empty triangulation with a simplex or facet lock that is
  not both valid and non-ideal, \<open>idealToFinite()\<close> throws \<open>LockViolation\<close>, and the store is
  the one before the call.
\<close>

theorem idealToFinite_locked:
  assumes "simplices w this \<noteq> []" and "hasLocks w this" and "\<not> (valid \<and> \<not> ideal)"
  shows "idealToFinite valid ideal tetList this w = (Inl LockViolation, w)"
  using assms by (auto simp: idealToFinite_def)

theorem idealToFinite_locked_witness:
  "simplices (lock 0 gieseking) 0 \<noteq> [] \<and> hasLocks (lock 0 gieseking) 0
   \<and> idealToFinite True True (\<lambda>_ _. []) 0 (lock 0 gieseking)
        = (Inl LockViolation, lock 0 gieseking)"
proof -
  have h: "simplices (lock 0 gieseking) 0 \<noteq> []" "hasLocks (lock 0 gieseking) 0"
    by code_simp+
  have v: "\<not> (True \<and> \<not> True)" by simp
  from idealToFinite_locked [OF h v] h show ?thesis by blast
qed

section \<open>The staging triangulation of idealToFinite\<close>

lemma fold_invariant:
  assumes "P w" and "\<And>x v. x \<in> set xs \<Longrightarrow> P v \<Longrightarrow> P (f x v)"
  shows "P (fold f xs w)"
  using assms by (induction xs arbitrary: w) auto

lemma simplices_joinRaw [simp]: "simplices (joinRaw me f you g w) = simplices w"
  by (simp add: joinRaw_def Let_def)

lemma newSimplex_fields:
  "fst (newSimplex dim desc t w) = nxt w"
  "simplices (snd (newSimplex dim desc t w)) = (simplices w)(t := simplices w t @ [nxt w])"
  "nxt (snd (newSimplex dim desc t w)) = Suc (nxt w)"
  "ntri (snd (newSimplex dim desc t w)) = ntri w"
  "heap (snd (newSimplex dim desc t w)) =
     (heap w)(nxt w := (Simplex dim desc t)\<lparr>marking := length (simplices w t)\<rparr>)"
  by (simp_all add: newSimplex_def new_def push_back_def)

lemma newSimplices_simplices:
  "newSimplices k t w = (ss, w') \<Longrightarrow>
     simplices w' = (simplices w)(t := simplices w t @ ss) \<and> length ss = k"
proof (induction k arbitrary: w ss w')
  case 0
  then show ?case by simp
next
  case (Suc k)
  obtain s w1 where 1: "newSimplexRaw 3 t w = (s, w1)" by (cases "newSimplexRaw 3 t w")
  obtain ss' w2 where 2: "newSimplices k t w1 = (ss', w2)" by (cases "newSimplices k t w1")
  from Suc.prems 1 2 have eq: "ss = s # ss'" "w' = w2" by simp_all
  from 1 have "simplices w1 = (simplices w)(t := simplices w t @ [s])"
    using newSimplex_fields(1,2) [of 3 "[]" t w] by (simp add: newSimplexRaw_def)
  with Suc.IH [OF 2] show ?case by (auto simp add: eq fun_eq_iff)
qed

lemma fold_simplices:
  "(\<And>x v. simplices (f x v) = simplices v) \<Longrightarrow> simplices (fold f xs w) = simplices w"
  by (induction xs arbitrary: w) simp_all

lemma simplices_glueInside: "simplices (glueInside d newTet i w) = simplices w"
  by (simp add: glueInside_def Let_def fold_simplices)

lemma simplices_glueAcross: "simplices (glueAcross d newTet this i j w) = simplices w"
  by (simp add: glueAcross_def Let_def fold_simplices split: option.splits)

lemma subdivide_size:
  assumes "subdivide this w = (stg, w')"
  shows "length (simplices w' stg) = 32 * length (simplices w this)"
proof -
  let ?n = "length (simplices w this)"
  obtain w0 where 0: "newTriangulation w = (ntri w, w0)" and s0: "simplices w0 (ntri w) = []"
    by (simp add: newTriangulation_def)
  obtain newTet w1 where 1: "newSimplices (32 * ?n) (ntri w) w0 = (newTet, w1)"
    by (cases "newSimplices (32 * ?n) (ntri w) w0")
  from newSimplices_simplices [OF 1] s0
  have s1: "length (simplices w1 (ntri w)) = 32 * ?n" by simp
  let ?w2 = "fold (glueInside numbering newTet) [0..<?n] w1"
  let ?w3 = "fold (\<lambda>i. fold (glueAcross numbering newTet this i) [0..<4]) [0..<?n] ?w2"
  have s2: "simplices ?w2 = simplices w1"
    by (simp add: fold_simplices simplices_glueInside)
  have s3: "simplices ?w3 = simplices ?w2"
    by (simp add: fold_simplices simplices_glueAcross)
  from assms 0 1 have "stg = ntri w" "w' = ?w3"
    by (simp_all add: subdivide_def Let_def)
  with s1 s2 s3 show ?thesis by simp
qed


lemma pieces_numbering:
  "nDiv numbering = 32"
  "length tipPieces = 4" "length interiorPieces = 4"
  "length edgePieces = 12" "length vertexPieces = 12"
  "distinct (tipPieces @ interiorPieces @ edgePieces @ vertexPieces)"
  "sort (tipPieces @ interiorPieces @ edgePieces @ vertexPieces) = [0..<32]"
  by code_simp+

lemma pieces_set: "set (tipPieces @ interiorPieces @ edgePieces @ vertexPieces) = {0..<32}"
proof -
  have "set (sort (tipPieces @ interiorPieces @ edgePieces @ vertexPieces)) = set [0..<32]"
    by (simp only: pieces_numbering(7))
  then show ?thesis by (simp only: set_sort set_upt)
qed

lemma unique_piece:
  fixes n m :: nat
  assumes "m < 32 * n"
  shows "\<exists>!p. fst p < n \<and> snd p < 32 \<and> m = snd p + fst p * 32"
proof
  show "fst (m div 32, m mod 32) < n \<and> snd (m div 32, m mod 32) < 32
        \<and> m = snd (m div 32, m mod 32) + fst (m div 32, m mod 32) * 32"
    using assms by (simp add: less_mult_imp_div_less mult.commute)
next
  fix p :: "nat \<times> nat"
  assume "fst p < n \<and> snd p < 32 \<and> m = snd p + fst p * 32"
  then have "m div 32 = fst p" "m mod 32 = snd p" by simp_all
  then show "p = (m div 32, m mod 32)" by (simp add: prod_eq_iff)
qed

lemma fst_subdivide: "fst (subdivide this w) = ntri w"
  by (simp add: subdivide_def Let_def newTriangulation_def split: prod.splits)

text \<open>
  Claim C8. The staging triangulation that \<open>idealToFinite()\<close> builds for a triangulation
  of \<open>n\<close> tetrahedra holds, before anything is deleted, exactly \<open>32 * n\<close> tetrahedra.
  The numbering gives each original tetrahedron 32 pieces: 4 tips and 4 interior pieces,
  one for each vertex label, and 12 edge and 12 vertex pieces, one for each ordered pair
  of distinct vertex labels; the numbers are distinct and fill \<open>0..31\<close>, so every staging
  index is piece \<open>d\<close> of original tetrahedron \<open>i\<close> for exactly one pair \<open>(i, d)\<close>.
\<close>

theorem staging_pieces:
  assumes "subdivide this w = (staging, w')"
  shows "size_tri w' staging = 32 * size_tri w this
    \<and> nDiv numbering = 32
    \<and> length tipPieces = 4 \<and> length interiorPieces = 4
    \<and> length edgePieces = 12 \<and> length vertexPieces = 12
    \<and> distinct (tipPieces @ interiorPieces @ edgePieces @ vertexPieces)
    \<and> set (tipPieces @ interiorPieces @ edgePieces @ vertexPieces) = {0..<32}
    \<and> (\<forall>m < size_tri w' staging.
          \<exists>!p. fst p < size_tri w this
               \<and> snd p \<in> set (tipPieces @ interiorPieces @ edgePieces @ vertexPieces)
               \<and> m = snd p + fst p * nDiv numbering)"
proof -
  have sz: "size_tri w' staging = 32 * size_tri w this"
    using subdivide_size [OF assms] by (simp add: size_tri_def)
  have U: "\<forall>m < size_tri w' staging.
          \<exists>!p. fst p < size_tri w this
               \<and> snd p \<in> set (tipPieces @ interiorPieces @ edgePieces @ vertexPieces)
               \<and> m = snd p + fst p * nDiv numbering"
    unfolding pieces_set pieces_numbering(1) sz
    using unique_piece by simp
  show ?thesis
    by (insert sz U pieces_numbering(1-6) pieces_set, intro conjI; assumption)
qed

theorem staging_pieces_witness:
  "subdivide 0 gieseking = (1, snd (subdivide 0 gieseking))
   \<and> size_tri gieseking 0 = 1
   \<and> size_tri (snd (subdivide 0 gieseking)) 1 = 32"
proof -
  have "ntri gieseking = 1" by code_simp
  then have h: "subdivide 0 gieseking = (1, snd (subdivide 0 gieseking))"
    using fst_subdivide [of 0 gieseking] by (simp add: prod_eq_iff)
  have n: "size_tri gieseking 0 = 1" by code_simp
  from staging_pieces [OF h] n h show ?thesis by simp
qed

section \<open>Properties of puncture\<close>

lemma runAll_ConsE:
  assumes "runAll (c # cs) w = (None, w')"
  obtains v where "c w = (None, v)" and "runAll cs v = (None, w')"
  using assms by (cases "c w") (auto split: option.splits)

lemma runAll_NilD: "runAll [] w = (None, w') \<Longrightarrow> w' = w"
  by simp

lemma unjoin_success:
  "unjoin me f w = (None, w') \<Longrightarrow> w' = unjoinRaw me f w \<and> adj (heap w me) f \<noteq> None"
  by (auto simp: unjoin_def split: if_splits)

lemma join_NoneD: "join dim me f you g w = (None, w') \<Longrightarrow> w' = joinRaw me f you g w"
  by (simp add: join_def split: if_splits)

lemma unjoin_NoneD: "unjoin me f w = (None, w') \<Longrightarrow> w' = unjoinRaw me f w"
  by (simp add: unjoin_def split: if_splits)

lemma puncture_unfold:
  "puncture this (Some tet) w =
     runAll
       [join 3 (nxt w) 0 (nxt w + 2) [3,0,1,2],
        join 3 (nxt w + 2) 0 (nxt w + 4) [3,0,1,2],
        join 3 (nxt w + 1) 1 (nxt w + 3) [3,0,1,2],
        join 3 (nxt w + 3) 1 (nxt w + 5) [3,2,0,1],
        join 3 (nxt w) 1 (nxt w + 1) [1,2,3,0],
        join 3 (nxt w) 2 (nxt w + 1) [1,2,3,0],
        join 3 (nxt w + 2) 1 (nxt w + 3) [1,2,3,0],
        join 3 (nxt w + 2) 2 (nxt w + 3) [1,2,3,0],
        join 3 (nxt w + 4) 1 (nxt w + 5) [0,1,3,2],
        join 3 (nxt w + 4) 2 (nxt w + 5) [0,1,3,2],
        (\<lambda>v. case adj (heap v tet) 0 of
                None \<Rightarrow> (None, v)
              | Some a \<Rightarrow>
                  (let g = gluing (heap v tet) 0
                   in runAll [unjoin tet 0, join 3 (nxt w + 1) 0 a g] v)),
        join 3 tet 0 (nxt w) [3,0,1,2]]
       (snd (newTetrahedron this (snd (newTetrahedron this (snd (newTetrahedron this
         (snd (newTetrahedron this (snd (newTetrahedron this (snd (newTetrahedron this w))))))))))))"
  by (simp add: puncture_def split_beta Let_def newTetrahedron_def newSimplex_fields eval_nat_numeral del: runAll.simps cong: option.case_cong)


lemma adj_unjoinRaw:
  "adj (heap (unjoinRaw me f w) a) k =
     (case adj (heap w me) f of
        None \<Rightarrow> adj (heap w a) k
      | Some you \<Rightarrow>
          if (a = me \<and> k = f) \<or> (a = you \<and> k = gluing (heap w me) f ! f) then None
          else adj (heap w a) k)"
  by (simp add: unjoinRaw_def Let_def split: option.splits)

lemma unjoinRaw_fields [simp]:
  "gluing (heap (unjoinRaw me f w) a) = gluing (heap w a)"
  "simplices (unjoinRaw me f w) = simplices w"
  "nxt (unjoinRaw me f w) = nxt w"
  by (simp_all add: unjoinRaw_def Let_def split: option.splits)

lemma joinRaw_fields [simp]:
  "nxt (joinRaw me f you g w) = nxt w"
  "ntri (joinRaw me f you g w) = ntri w"
  by (simp_all add: joinRaw_def Let_def)

lemma sixTetrahedra:
  fixes w :: world and this :: nat
  defines "w6 \<equiv> snd (newTetrahedron this (snd (newTetrahedron this (snd (newTetrahedron this
         (snd (newTetrahedron this (snd (newTetrahedron this (snd (newTetrahedron this w)))))))))))"
  shows "simplices w6 = (simplices w)(this := simplices w this @
            [nxt w, nxt w + 1, nxt w + 2, nxt w + 3, nxt w + 4, nxt w + 5])"
    and "nxt w6 = nxt w + 6"
    and "a < nxt w \<Longrightarrow> heap w6 a = heap w a"
    and "nxt w \<le> a \<Longrightarrow> a < nxt w + 6 \<Longrightarrow> adj (heap w6 a) f = None"
  unfolding w6_def
  by (auto simp: newTetrahedron_def newSimplex_fields Simplex_def fun_eq_iff eval_nat_numeral)

lemma puncture_store:
  fixes w :: world and this s :: nat
  defines "n \<equiv> nxt w"
  defines "w6 \<equiv> snd (newTetrahedron this (snd (newTetrahedron this (snd (newTetrahedron this
         (snd (newTetrahedron this (snd (newTetrahedron this (snd (newTetrahedron this w)))))))))))"
  defines "V \<equiv> joinRaw (n + 4) 2 (n + 5) [0,1,3,2] (joinRaw (n + 4) 1 (n + 5) [0,1,3,2]
        (joinRaw (n + 2) 2 (n + 3) [1,2,3,0] (joinRaw (n + 2) 1 (n + 3) [1,2,3,0]
        (joinRaw n 2 (n + 1) [1,2,3,0] (joinRaw n 1 (n + 1) [1,2,3,0]
        (joinRaw (n + 3) 1 (n + 5) [3,2,0,1] (joinRaw (n + 1) 1 (n + 3) [3,0,1,2]
        (joinRaw (n + 2) 0 (n + 4) [3,0,1,2] (joinRaw n 0 (n + 2) [3,0,1,2] w6)))))))))"
  assumes ok: "puncture this (Some s) w = (None, w')" and s: "s < nxt w"
  shows "w' = joinRaw s 0 n [3,0,1,2]
           (case adj (heap w s) 0 of
              None \<Rightarrow> V
            | Some a \<Rightarrow> joinRaw (n + 1) 0 a (gluing (heap w s) 0) (unjoinRaw s 0 V))"
proof -
  note S = sixTetrahedra [where this = this and w = w, folded w6_def n_def]
  from ok [unfolded puncture_unfold, folded w6_def n_def]
  obtain v1 v2 v3 v4 v5 v6 v7 v8 v9 v10 v11 where
    j: "join 3 n 0 (n + 2) [3,0,1,2] w6 = (None, v1)"
       "join 3 (n + 2) 0 (n + 4) [3,0,1,2] v1 = (None, v2)"
       "join 3 (n + 1) 1 (n + 3) [3,0,1,2] v2 = (None, v3)"
       "join 3 (n + 3) 1 (n + 5) [3,2,0,1] v3 = (None, v4)"
       "join 3 n 1 (n + 1) [1,2,3,0] v4 = (None, v5)"
       "join 3 n 2 (n + 1) [1,2,3,0] v5 = (None, v6)"
       "join 3 (n + 2) 1 (n + 3) [1,2,3,0] v6 = (None, v7)"
       "join 3 (n + 2) 2 (n + 3) [1,2,3,0] v7 = (None, v8)"
       "join 3 (n + 4) 1 (n + 5) [0,1,3,2] v8 = (None, v9)"
       "join 3 (n + 4) 2 (n + 5) [0,1,3,2] v9 = (None, v10)"
    and m: "(case adj (heap v10 s) 0 of
                None \<Rightarrow> (None, v10)
              | Some a \<Rightarrow>
                  (let g = gluing (heap v10 s) 0
                   in runAll [unjoin s 0, join 3 (n + 1) 0 a g] v10)) = (None, v11)"
    and l: "join 3 s 0 n [3,0,1,2] v11 = (None, w')"
    by (elim runAll_ConsE) (simp only: runAll.simps prod.inject)
  from j have v10: "v10 = V"
    unfolding V_def by (auto dest!: join_NoneD)
  from s have sV: "adj (heap V s) 0 = adj (heap w s) 0" "gluing (heap V s) 0 = gluing (heap w s) 0"
    by (simp_all add: V_def adj_joinRaw gluing_joinRaw S n_def)
  have "v11 = (case adj (heap w s) 0 of
              None \<Rightarrow> V
            | Some a \<Rightarrow> joinRaw (n + 1) 0 a (gluing (heap w s) 0) (unjoinRaw s 0 V))"
  proof (cases "adj (heap w s) 0")
    case None
    with m sV show ?thesis by (simp add: v10)
  next
    case (Some a)
    with m sV have "runAll [unjoin s 0, join 3 (n + 1) 0 a (gluing (heap w s) 0)] V = (None, v11)"
      by (simp add: v10 Let_def del: runAll.simps)
    then obtain u where "unjoin s 0 V = (None, u)"
      and "join 3 (n + 1) 0 a (gluing (heap w s) 0) u = (None, v11)"
      by (elim runAll_ConsE) (simp only: runAll.simps prod.inject)
    then show ?thesis using Some by (auto dest!: join_NoneD unjoin_NoneD)
  qed
  with l show ?thesis by (auto dest!: join_NoneD)
qed


lemma slot_unjoinRaw:
  "slot (unjoinRaw me f w) a k =
     (case adj (heap w me) f of
        None \<Rightarrow> slot w a k
      | Some you \<Rightarrow>
          if (a = me \<and> k = f) \<or> (a = you \<and> k = gluing (heap w me) f ! f) then None
          else slot w a k)"
  by (simp add: slot_def adj_unjoinRaw split: option.splits)

lemma facet_cases: "f \<le> 3 \<Longrightarrow> f = 0 \<or> f = 1 \<or> f = 2 \<or> f = (3::nat)"
  by arith

lemma prism_cases: "k < 6 \<Longrightarrow> k = 0 \<or> k = 1 \<or> k = 2 \<or> k = 3 \<or> k = 4 \<or> k = (5::nat)"
  by arith

lemma puncture_effect:
  assumes ok: "puncture this (Some s) w = (None, w')" and s: "s < nxt w"
    and nb: "\<And>b. adj (heap w s) 0 = Some b \<Longrightarrow> b < nxt w"
  shows "simplices w' = (simplices w)(this := simplices w this @
            [nxt w, nxt w + 1, nxt w + 2, nxt w + 3, nxt w + 4, nxt w + 5])"
    and "\<And>a f. a < nxt w \<Longrightarrow> slot w' a f =
           (if a = s \<and> f = 0 then Some (nxt w, [3,0,1,2])
            else if adj (heap w s) 0 = Some a \<and> f = gluing (heap w s) 0 ! 0
              then Some (nxt w + 1, perm_inverse (gluing (heap w s) 0))
            else slot w a f)"
    and "\<And>k f. k < 6 \<Longrightarrow> f \<le> 3 \<Longrightarrow>
           (adj (heap w' (nxt w + k)) f = None) =
             ((k = 4 \<or> k = 5) \<and> f = 0 \<or> k = 1 \<and> f = 0 \<and> adj (heap w s) 0 = None)"
proof -
  define n where "n = nxt w"
  define w6 where "w6 = snd (newTetrahedron this (snd (newTetrahedron this (snd (newTetrahedron this
         (snd (newTetrahedron this (snd (newTetrahedron this (snd (newTetrahedron this w)))))))))))"
  define V where "V = joinRaw (n + 4) 2 (n + 5) [0,1,3,2] (joinRaw (n + 4) 1 (n + 5) [0,1,3,2]
        (joinRaw (n + 2) 2 (n + 3) [1,2,3,0] (joinRaw (n + 2) 1 (n + 3) [1,2,3,0]
        (joinRaw n 2 (n + 1) [1,2,3,0] (joinRaw n 1 (n + 1) [1,2,3,0]
        (joinRaw (n + 3) 1 (n + 5) [3,2,0,1] (joinRaw (n + 1) 1 (n + 3) [3,0,1,2]
        (joinRaw (n + 2) 0 (n + 4) [3,0,1,2] (joinRaw n 0 (n + 2) [3,0,1,2] w6)))))))))"
  note S = sixTetrahedra [where this = this and w = w, folded w6_def n_def]
  have W: "w' = joinRaw s 0 n [3,0,1,2]
           (case adj (heap w s) 0 of
              None \<Rightarrow> V
            | Some a \<Rightarrow> joinRaw (n + 1) 0 a (gluing (heap w s) 0) (unjoinRaw s 0 V))"
    unfolding V_def w6_def n_def by (rule puncture_store [OF ok s])
  have sn: "s < n" using s by (simp add: n_def)
  have Vs: "simplices V = simplices w6" by (simp add: V_def)
  have Vold: "slot V a f = slot w a f" "adj (heap V a) f = adj (heap w a) f"
    "gluing (heap V a) f = gluing (heap w a) f" if "a < n" for a f
    using that by (simp_all add: V_def slot_joinRaw adj_joinRaw gluing_joinRaw slot_def S)
  have new: "adj (heap w6 (n + k)) f = None" if "k < 6" for k f
    using S(4) [of "n + k" f] that by simp
  have Vnew: "(adj (heap V (n + k)) f = None) = ((k = 4 \<or> k = 5 \<or> k = 1) \<and> f = 0 \<or> k = 0 \<and> f = 3)"
    if "k < 6" "f \<le> 3" for k f
    using prism_cases [OF that(1)] facet_cases [OF that(2)]
    by (elim disjE; simp add: V_def adj_joinRaw S(4))
  show "simplices w' = (simplices w)(this := simplices w this @
            [nxt w, nxt w + 1, nxt w + 2, nxt w + 3, nxt w + 4, nxt w + 5])"
    unfolding W using S(1) Vs by (simp add: n_def split: option.splits)
  show "slot w' a f =
           (if a = s \<and> f = 0 then Some (nxt w, [3,0,1,2])
            else if adj (heap w s) 0 = Some a \<and> f = gluing (heap w s) 0 ! 0
              then Some (nxt w + 1, perm_inverse (gluing (heap w s) 0))
            else slot w a f)" if "a < nxt w" for a f
  proof -
    from that have an: "a < n" by (simp add: n_def)
    show ?thesis
      unfolding W n_def [symmetric]
      using an sn Vold [OF an] Vold [OF sn]
      by (auto simp: slot_joinRaw slot_unjoinRaw split: option.splits)
  qed
  show "(adj (heap w' (nxt w + k)) f = None) =
             ((k = 4 \<or> k = 5) \<and> f = 0 \<or> k = 1 \<and> f = 0 \<and> adj (heap w s) 0 = None)"
    if k: "k < 6" and f: "f \<le> 3" for k f
  proof (cases "adj (heap w s) 0")
    case None
    then show ?thesis
      unfolding W n_def [symmetric]
      using sn Vnew [OF k f] by (auto simp: adj_joinRaw)
  next
    case (Some b)
    with nb have bn: "b < n" by (simp add: n_def)
    from Some show ?thesis
      unfolding W n_def [symmetric]
      using sn bn Vnew [OF k f] Vold [OF sn]
      by (auto simp: adj_joinRaw adj_unjoinRaw)
  qed
qed


lemma runAll_invariant:
  assumes "runAll cs w = (e, w')" and "I w"
    and "\<And>c v e' v'. c \<in> set cs \<Longrightarrow> I v \<Longrightarrow> c v = (e', v') \<Longrightarrow> I v'"
  shows "I w'"
  using assms
proof (induction cs arbitrary: w)
  case Nil
  then show ?case by simp
next
  case (Cons c cs)
  obtain e1 v1 where c: "c w = (e1, v1)" by (cases "c w")
  with Cons.prems(2,3) have I1: "I v1" by (metis list.set_intros(1))
  show ?case
  proof (cases e1)
    case None
    with Cons.prems(1) c have "runAll cs v1 = (e, w')" by simp
    from Cons.IH [OF this I1] Cons.prems(3) show ?thesis by (metis list.set_intros(2))
  next
    case (Some x)
    with Cons.prems(1) c have "w' = v1" by simp
    with I1 show ?thesis by simp
  qed
qed

lemma runAll_append:
  "runAll (cs @ ds) w =
     (case runAll cs w of (None, v) \<Rightarrow> runAll ds v | (Some e, v) \<Rightarrow> (Some e, v))"
  by (induction cs arbitrary: w) (auto split: prod.splits option.splits)

lemma join_outcome:
  "join dim me f you g v = (e, v') \<Longrightarrow> v' = v \<or> v' = joinRaw me f you g v"
  by (auto simp: join_def split: if_splits)

lemma unjoin_outcome:
  "unjoin me f v = (e, v') \<Longrightarrow> v' = v \<or> v' = unjoinRaw me f v"
  by (auto simp: unjoin_def split: if_splits)

lemma heap_joinRaw_other:
  "a \<noteq> me \<Longrightarrow> a \<noteq> you \<Longrightarrow> heap (joinRaw me f you g v) a = heap v a"
  by (simp add: joinRaw_def Let_def)

lemma puncture_any_outcome:
  assumes run: "puncture this (Some s) w = (e, w')" and s: "s < nxt w"
  shows "simplices w' = (simplices w)(this := simplices w this @
            [nxt w, nxt w + 1, nxt w + 2, nxt w + 3, nxt w + 4, nxt w + 5])"
    and "\<And>a f. a < nxt w \<Longrightarrow> \<not> (a = s \<and> f = 0)
           \<Longrightarrow> \<not> (adj (heap w s) 0 = Some a \<and> f = gluing (heap w s) 0 ! 0)
           \<Longrightarrow> slot w' a f = slot w a f"
proof -
  define n where "n = nxt w"
  define w6 where "w6 = snd (newTetrahedron this (snd (newTetrahedron this (snd (newTetrahedron this
         (snd (newTetrahedron this (snd (newTetrahedron this (snd (newTetrahedron this w)))))))))))"
  note S = sixTetrahedra [where this = this and w = w, folded w6_def n_def]
  define P0 where "P0 v \<longleftrightarrow> simplices v = simplices w6 \<and> (\<forall>a < n. heap v a = heap w a)" for v :: world
  define P where "P v \<longleftrightarrow> simplices v = simplices w6 \<and>
      (\<forall>a < n. \<forall>f. \<not> (a = s \<and> f = 0)
          \<longrightarrow> \<not> (adj (heap w s) 0 = Some a \<and> f = gluing (heap w s) 0 ! 0)
          \<longrightarrow> slot v a f = slot w a f)" for v :: world
  have P0P: "P v" if "P0 v" for v using that by (simp add: P0_def P_def slot_def)
  have sn: "s < n" using s by (simp add: n_def)
  let ?ten = "[join 3 n 0 (n + 2) [3,0,1,2],
        join 3 (n + 2) 0 (n + 4) [3,0,1,2],
        join 3 (n + 1) 1 (n + 3) [3,0,1,2],
        join 3 (n + 3) 1 (n + 5) [3,2,0,1],
        join 3 n 1 (n + 1) [1,2,3,0],
        join 3 n 2 (n + 1) [1,2,3,0],
        join 3 (n + 2) 1 (n + 3) [1,2,3,0],
        join 3 (n + 2) 2 (n + 3) [1,2,3,0],
        join 3 (n + 4) 1 (n + 5) [0,1,3,2],
        join 3 (n + 4) 2 (n + 5) [0,1,3,2]]"
  let ?mid = "\<lambda>v. case adj (heap v s) 0 of
                None \<Rightarrow> (None, v)
              | Some a \<Rightarrow>
                  (let g = gluing (heap v s) 0
                   in runAll [unjoin s 0, join 3 (n + 1) 0 a g] v)"
  let ?last = "join 3 s 0 n [3,0,1,2]"
  have new_join: "P0 v'" if "P0 v" "join 3 me f you g v = (e', v')" "n \<le> me" "n \<le> you"
    for v v' e' me f you g
    using join_outcome [OF that(2)] that(1,3,4)
    by (auto simp: P0_def heap_joinRaw_other)
  have ten: "P0 v'" if "c \<in> set ?ten" "P0 v" "c v = (e', v')" for c v e' v'
    using that new_join by (auto simp del: runAll.simps)
  have mid: "P v'" if v: "P0 v" and r: "?mid v = (e', v')" for v e' v'
  proof (cases "adj (heap w s) 0")
    case None
    with v r sn have "v' = v" by (simp add: P0_def)
    with v show ?thesis by (simp add: P0P)
  next
    case (Some b)
    let ?g = "gluing (heap w s) 0"
    from v sn have hs: "heap v s = heap w s" by (simp add: P0_def)
    from v have sv: "slot v a f = slot w a f" if "a < n" for a f
      using that by (simp add: P0_def slot_def)
    from v have sim: "simplices v = simplices w6" by (simp add: P0_def)
    from hs r Some have "runAll [unjoin s 0, join 3 (n + 1) 0 b ?g] v = (e', v')"
      by (simp add: Let_def del: runAll.simps)
    then have "v' = v \<or> v' = unjoinRaw s 0 v
        \<or> v' = joinRaw (n + 1) 0 b ?g (unjoinRaw s 0 v)"
    proof -
      assume a: "runAll [unjoin s 0, join 3 (n + 1) 0 b ?g] v = (e', v')"
      obtain e1 u where u: "unjoin s 0 v = (e1, u)" by (cases "unjoin s 0 v")
      show ?thesis
      proof (cases e1)
        case (Some x)
        with a u have "v' = u" by simp
        with unjoin_outcome [OF u] show ?thesis by auto
      next
        case None
        with u have "u = unjoinRaw s 0 v" by (simp add: unjoin_NoneD)
        moreover from a u None have "join 3 (n + 1) 0 b ?g u = (e', v')"
          by (auto split: prod.splits option.splits)
        ultimately show ?thesis using join_outcome by blast
      qed
    qed
    then consider "v' = v" | "v' = unjoinRaw s 0 v"
      | "v' = joinRaw (n + 1) 0 b ?g (unjoinRaw s 0 v)"
      by blast
    then show ?thesis
    proof cases
      case 1
      with v show ?thesis by (simp add: P0P)
    next
      case 2
      with sv sim Some hs show ?thesis
        by (auto simp: P_def slot_unjoinRaw)
    next
      case 3
      with sv sim Some hs show ?thesis
        by (auto simp: P_def slot_joinRaw slot_unjoinRaw)
    qed
  qed
  have last: "P v'" if "P v" "?last v = (e', v')" for v e' v'
    using join_outcome [OF that(2)] that(1)
    by (auto simp: P_def slot_joinRaw)
  have w6: "P0 w6" using S(3) by (simp add: P0_def)
  from run have run': "runAll (?ten @ [?mid, ?last]) w6 = (e, w')"
    unfolding puncture_unfold w6_def n_def by simp
  obtain e1 v1 where 1: "runAll ?ten w6 = (e1, v1)" by (cases "runAll ?ten w6")
  from runAll_invariant [OF 1, of P0] w6 ten have v1: "P0 v1" by blast
  have "P w'"
  proof (cases e1)
    case (Some x)
    with 1 run' have "w' = v1"
      by (simp only: runAll_append prod.case option.case prod.inject)
    with v1 show ?thesis by (simp add: P0P)
  next
    case None
    with 1 run' have 2: "runAll [?mid, ?last] v1 = (e, w')"
      by (simp only: runAll_append prod.case option.case)
    obtain e2 v2 where m: "?mid v1 = (e2, v2)" by (cases "?mid v1")
    from mid [OF v1 m] have v2: "P v2" .
    show ?thesis
    proof (cases e2)
      case (Some y)
      with 2 m have "w' = v2" by (simp del: join_def split: option.splits)
      with v2 show ?thesis by simp
    next
      case None
      with 2 m have "?last v2 = (e, w')" by (auto split: option.splits prod.splits)
      from last [OF v2 this] show ?thesis .
    qed
  qed
  then show "simplices w' = (simplices w)(this := simplices w this @
            [nxt w, nxt w + 1, nxt w + 2, nxt w + 3, nxt w + 4, nxt w + 5])"
    and "\<And>a f. a < nxt w \<Longrightarrow> \<not> (a = s \<and> f = 0)
           \<Longrightarrow> \<not> (adj (heap w s) 0 = Some a \<and> f = gluing (heap w s) 0 ! 0)
           \<Longrightarrow> slot w' a f = slot w a f"
    using S(1) by (simp_all add: P_def n_def)
qed


lemma join_ok:
  assumes "f \<le> dim" and "adj (heap w me) f = None" and "adj (heap w you) (g ! f) = None"
    and "\<not> (you = me \<and> g ! f = f)"
    and "\<not> simplexLock (heap w me)" and "\<not> facetLock (heap w me) f"
    and "\<not> simplexLock (heap w you)" and "\<not> facetLock (heap w you) (g ! f)"
  shows "join dim me f you g w = (None, joinRaw me f you g w)"
  using assms by (simp add: join_def)

lemma locks_joinRaw [simp]:
  "simplexLock (heap (joinRaw me f you g w) a) = simplexLock (heap w a)"
  "facetLock (heap (joinRaw me f you g w) a) = facetLock (heap w a)"
  by (simp_all add: joinRaw_def Let_def)

lemma locks_unjoinRaw [simp]:
  "simplexLock (heap (unjoinRaw me f w) a) = simplexLock (heap w a)"
  "facetLock (heap (unjoinRaw me f w) a) = facetLock (heap w a)"
  by (simp_all add: unjoinRaw_def Let_def split: option.splits)

lemma sixTetrahedra_locks:
  fixes w :: world and this :: nat
  defines "w6 \<equiv> snd (newTetrahedron this (snd (newTetrahedron this (snd (newTetrahedron this
         (snd (newTetrahedron this (snd (newTetrahedron this (snd (newTetrahedron this w)))))))))))"
  assumes "nxt w \<le> a" and "a < nxt w + 6"
  shows "\<not> simplexLock (heap w6 a)" and "\<not> facetLock (heap w6 a) f"
  using assms(2,3) unfolding w6_def
  by (auto simp: newTetrahedron_def newSimplex_fields Simplex_def eval_nat_numeral)

lemma puncture_succeeds:
  assumes s: "s < nxt w" and ls: "\<not> simplexLock (heap w s)" "\<not> facetLock (heap w s) 0"
    and nb: "\<And>b. adj (heap w s) 0 = Some b \<Longrightarrow>
               b < nxt w \<and> \<not> simplexLock (heap w b)
               \<and> \<not> facetLock (heap w b) (gluing (heap w s) 0 ! 0)
               \<and> \<not> (b = s \<and> gluing (heap w s) 0 ! 0 = 0)"
  shows "fst (puncture this (Some s) w) = None"
proof -
  define n where "n = nxt w"
  define w6 where "w6 = snd (newTetrahedron this (snd (newTetrahedron this (snd (newTetrahedron this
         (snd (newTetrahedron this (snd (newTetrahedron this (snd (newTetrahedron this w)))))))))))"
  define V where "V = joinRaw (n + 4) 2 (n + 5) [0,1,3,2] (joinRaw (n + 4) 1 (n + 5) [0,1,3,2]
        (joinRaw (n + 2) 2 (n + 3) [1,2,3,0] (joinRaw (n + 2) 1 (n + 3) [1,2,3,0]
        (joinRaw n 2 (n + 1) [1,2,3,0] (joinRaw n 1 (n + 1) [1,2,3,0]
        (joinRaw (n + 3) 1 (n + 5) [3,2,0,1] (joinRaw (n + 1) 1 (n + 3) [3,0,1,2]
        (joinRaw (n + 2) 0 (n + 4) [3,0,1,2] (joinRaw n 0 (n + 2) [3,0,1,2] w6)))))))))"
  note S = sixTetrahedra [where this = this and w = w, folded w6_def n_def]
  note L = sixTetrahedra_locks [where this = this and w = w, folded w6_def n_def]
  have sn: "s < n" using s by (simp add: n_def)
  let ?ten = "[join 3 n 0 (n + 2) [3,0,1,2],
        join 3 (n + 2) 0 (n + 4) [3,0,1,2],
        join 3 (n + 1) 1 (n + 3) [3,0,1,2],
        join 3 (n + 3) 1 (n + 5) [3,2,0,1],
        join 3 n 1 (n + 1) [1,2,3,0],
        join 3 n 2 (n + 1) [1,2,3,0],
        join 3 (n + 2) 1 (n + 3) [1,2,3,0],
        join 3 (n + 2) 2 (n + 3) [1,2,3,0],
        join 3 (n + 4) 1 (n + 5) [0,1,3,2],
        join 3 (n + 4) 2 (n + 5) [0,1,3,2]]"
  let ?mid = "\<lambda>v. case adj (heap v s) 0 of
                None \<Rightarrow> (None, v)
              | Some a \<Rightarrow>
                  (let g = gluing (heap v s) 0
                   in runAll [unjoin s 0, join 3 (n + 1) 0 a g] v)"
  let ?last = "join 3 s 0 n [3,0,1,2]"
  have ten: "runAll ?ten w6 = (None, V)"
    unfolding V_def by (simp add: join_ok adj_joinRaw S(4) L)
  have Vold: "adj (heap V a) f = adj (heap w a) f" "gluing (heap V a) f = gluing (heap w a) f"
    "simplexLock (heap V a) = simplexLock (heap w a)" "facetLock (heap V a) = facetLock (heap w a)"
    if "a < n" for a f
    using that by (simp_all add: V_def adj_joinRaw gluing_joinRaw S)
  have Vnew: "adj (heap V n) 3 = None" "adj (heap V (n + 1)) 0 = None"
    "\<not> simplexLock (heap V n)" "\<not> facetLock (heap V n) 3"
    "\<not> simplexLock (heap V (n + 1))" "\<not> facetLock (heap V (n + 1)) 0"
    by (simp_all add: V_def adj_joinRaw S(4) L)
  have "\<exists>v. runAll [?mid, ?last] V = (None, v)"
  proof (cases "adj (heap w s) 0")
    case None
    then show ?thesis
      using sn ls Vold [OF sn] Vnew by (simp add: join_ok)
  next
    case (Some b)
    from nb [OF Some] have b: "b < n" "\<not> simplexLock (heap w b)"
      "\<not> facetLock (heap w b) (gluing (heap w s) 0 ! 0)"
      "\<not> (b = s \<and> gluing (heap w s) 0 ! 0 = 0)"
      by (simp_all add: n_def)
    let ?g = "gluing (heap w s) 0"
    have u: "unjoin s 0 V = (None, unjoinRaw s 0 V)"
      using Some ls Vold [OF sn] by (simp add: unjoin_def)
    have j: "join 3 (n + 1) 0 b ?g (unjoinRaw s 0 V)
               = (None, joinRaw (n + 1) 0 b ?g (unjoinRaw s 0 V))"
      using Some b sn Vold [OF sn] Vold [OF b(1)] Vnew
      by (intro join_ok) (simp_all add: adj_unjoinRaw)
    have k: "join 3 s 0 n [3,0,1,2] (joinRaw (n + 1) 0 b ?g (unjoinRaw s 0 V))
               = (None, joinRaw s 0 n [3,0,1,2] (joinRaw (n + 1) 0 b ?g (unjoinRaw s 0 V)))"
      using Some b sn ls Vold [OF sn] Vold [OF b(1)] Vnew
      by (intro join_ok) (auto simp: adj_joinRaw adj_unjoinRaw)
    from Some u j k Vold [OF sn] show ?thesis by (simp add: Let_def)
  qed
  then obtain v where "runAll [?mid, ?last] V = (None, v)" ..
  with ten have "runAll (?ten @ [?mid, ?last]) w6 = (None, v)"
    by (simp only: runAll_append prod.case option.case)
  then have "puncture this (Some s) w = (None, v)"
    unfolding puncture_unfold w6_def n_def by simp
  then show ?thesis by simp
qed

lemma gieseking_facts:
  "wellFormed 3 gieseking 0" "simplices gieseking 0 = [0]" "nxt gieseking = 1"
  "adj (heap gieseking 0) 0 = Some 0" "gluing (heap gieseking 0) 0 = [1,2,0,3]"
  "\<not> simplexLock (heap gieseking 0)" "\<not> facetLock (heap gieseking 0) 0"
  "\<not> facetLock (heap gieseking 0) (Suc 0)"
  "slot gieseking 0 1 = Some (0, [2,0,1,3])"
  "size_tri gieseking 0 = 1"
  by code_simp+

lemma giesekingPunctured_run: "puncture 0 (Some 0) gieseking = (None, giesekingPunctured)"
proof -
  have "fst (puncture 0 (Some 0) gieseking) = None"
    by (rule puncture_succeeds) (simp_all add: gieseking_facts)
  then show ?thesis by (simp add: giesekingPunctured_def prod_eq_iff)
qed

text \<open>
  Claim C5 says that a puncture leaves facets 1, 2, 3 of the punctured tetrahedron \<open>s\<close>
  unchanged. In the Gieseking triangulation of the test suite, facet 0 of the tetrahedron
  is glued to its own facet 1: the puncture detaches that neighbour and reattaches it to a
  prism, so the slot of facet 1 changes.
\<close>

theorem puncture_self_glued_counterexample:
  "wellFormed 3 gieseking 0
   \<and> simplices gieseking 0 = [0]
   \<and> puncture 0 (Some 0) gieseking = (None, giesekingPunctured)
   \<and> slot gieseking 0 1 = Some (0, [2,0,1,3])
   \<and> slot giesekingPunctured 0 1 = Some (2, [2,0,1,3])"
proof -
  have inv: "perm_inverse [1,2,0,3] = [2,0,1,3]" by code_simp
  have "slot giesekingPunctured 0 1 = Some (2, [2,0,1,3])"
    using puncture_effect(2) [OF giesekingPunctured_run, of 0 1]
    by (simp add: gieseking_facts inv del: One_nat_def)
  with giesekingPunctured_run gieseking_facts show ?thesis by blast
qed

text \<open>
  Claim C5, amended. For a tetrahedron \<open>s\<close> of a triangulation, \<open>puncture(s)\<close> increases the
  size by exactly 6, and the only slots of already existing simplices that change are
  facet 0 of \<open>s\<close> and the reciprocal facet of the former neighbour of \<open>s\<close> across facet 0.
  So every other simplex keeps its gluings, and \<open>s\<close> keeps facets 1, 2, 3 unless it was
  glued to itself across facet 0. This holds in every outcome of the call, also when a
  lock makes one of the last gluings throw.
\<close>

theorem puncture_frame:
  assumes wf: "wellFormed 3 w this" and mem: "s \<in> set (simplices w this)"
    and run: "puncture this (Some s) w = (e, w')"
  shows "size_tri w' this = size_tri w this + 6
    \<and> (\<forall>a f. a < nxt w \<longrightarrow> slot w' a f \<noteq> slot w a f \<longrightarrow>
          (a = s \<and> f = 0) \<or> (adj (heap w s) 0 = Some a \<and> f = gluing (heap w s) 0 ! 0))
    \<and> (adj (heap w s) 0 \<noteq> Some s \<longrightarrow> (\<forall>f. f \<noteq> 0 \<longrightarrow> slot w' s f = slot w s f))"
proof -
  from wf mem have s: "s < nxt w" by (rule wellFormedD(3))
  note R = puncture_any_outcome [OF run s]
  have 1: "size_tri w' this = size_tri w this + 6"
    by (simp add: size_tri_def R(1))
  have 2: "\<forall>a f. a < nxt w \<longrightarrow> slot w' a f \<noteq> slot w a f \<longrightarrow>
          (a = s \<and> f = 0) \<or> (adj (heap w s) 0 = Some a \<and> f = gluing (heap w s) 0 ! 0)"
  proof (intro allI impI)
    fix a f :: nat assume "a < nxt w" "slot w' a f \<noteq> slot w a f"
    with R(2) [of a f]
    show "(a = s \<and> f = 0) \<or> (adj (heap w s) 0 = Some a \<and> f = gluing (heap w s) 0 ! 0)"
      by argo
  qed
  have 3: "adj (heap w s) 0 \<noteq> Some s \<longrightarrow> (\<forall>f. f \<noteq> 0 \<longrightarrow> slot w' s f = slot w s f)"
  proof (intro allI impI)
    fix f :: nat assume "adj (heap w s) 0 \<noteq> Some s" "f \<noteq> 0"
    with R(2) [OF s, of f] show "slot w' s f = slot w s f" by argo
  qed
  show ?thesis by (intro conjI 1 2 3)
qed

theorem puncture_frame_witness:
  "wellFormed 3 gieseking 0 \<and> 0 \<in> set (simplices gieseking 0)
   \<and> puncture 0 (Some 0) gieseking = (None, giesekingPunctured)
   \<and> size_tri gieseking 0 = 1 \<and> size_tri giesekingPunctured 0 = 7
   \<and> slot giesekingPunctured 0 2 = slot gieseking 0 2
   \<and> slot giesekingPunctured 0 3 = slot gieseking 0 3"
proof -
  have h: "wellFormed 3 gieseking 0" "0 \<in> set (simplices gieseking 0)"
    by (simp_all add: gieseking_facts)
  note r = giesekingPunctured_run
  note T = puncture_frame [OF h r]
  from T have "size_tri giesekingPunctured 0 = 7" by (simp add: gieseking_facts)
  moreover from T have "\<forall>a f. a < nxt gieseking \<longrightarrow> slot giesekingPunctured a f \<noteq> slot gieseking a f \<longrightarrow>
          (a = 0 \<and> f = 0) \<or> (adj (heap gieseking 0) 0 = Some a \<and> f = gluing (heap gieseking 0) 0 ! 0)"
    by blast
  then have "\<forall>f. slot giesekingPunctured 0 f \<noteq> slot gieseking 0 f \<longrightarrow> f = 0 \<or> f = 1"
    by (simp add: gieseking_facts)
  then have "slot giesekingPunctured 0 2 = slot gieseking 0 2"
    "slot giesekingPunctured 0 3 = slot gieseking 0 3"
    by (metis numeral_eq_one_iff semiring_norm(85,86) zero_neq_numeral)+
  ultimately show ?thesis using h r gieseking_facts(10) by blast
qed

text \<open>
  Claim C10. After \<open>puncture(s)\<close> has returned, the six new tetrahedra are the last six
  simplices, in creation order; facet 0 of the simplices at indices \<open>size - 2\<close> and
  \<open>size - 1\<close> is a boundary facet, and these are the only boundary facets of the new
  tetrahedra, apart from the end of the first prism that takes the place of facet 0 of
  \<open>s\<close> in the boundary when \<open>s\<close> had no neighbour there. Without an argument, \<open>puncture\<close>
  punctures the simplex at index 0.
\<close>

theorem puncture_boundary:
  assumes wf: "wellFormed 3 w this" and mem: "s \<in> set (simplices w this)"
    and ok: "puncture this (Some s) w = (None, w')"
  shows "simplices w' this = simplices w this @
            [nxt w, nxt w + 1, nxt w + 2, nxt w + 3, nxt w + 4, nxt w + 5]
    \<and> simplices w' this ! (size_tri w' this - 2) = nxt w + 4
    \<and> simplices w' this ! (size_tri w' this - 1) = nxt w + 5
    \<and> slot w' (simplices w' this ! (size_tri w' this - 2)) 0 = None
    \<and> slot w' (simplices w' this ! (size_tri w' this - 1)) 0 = None
    \<and> (\<forall>k < 6. \<forall>f \<le> 3. (slot w' (nxt w + k) f = None) =
          ((k = 4 \<or> k = 5) \<and> f = 0 \<or> k = 1 \<and> f = 0 \<and> slot w s 0 = None))
    \<and> puncture this None w = puncture this (Some (simplices w this ! 0)) w"
proof -
  from wf mem have s: "s < nxt w" by (rule wellFormedD(3))
  have nb: "b < nxt w" if "adj (heap w s) 0 = Some b" for b
    using wellFormedD(4) [OF wf mem _ that] wellFormedD(3) [OF wf] by simp
  note R = puncture_effect [OF ok s nb]
  let ?new = "[nxt w, nxt w + 1, nxt w + 2, nxt w + 3, nxt w + 4, nxt w + 5]"
  have 1: "simplices w' this = simplices w this @ ?new" by (simp add: R(1))
  have 2: "simplices w' this ! (size_tri w' this - 2) = nxt w + 4"
    "simplices w' this ! (size_tri w' this - 1) = nxt w + 5"
    by (simp_all add: 1 size_tri_def nth_append)
  have 3: "\<forall>k < 6. \<forall>f \<le> 3. (slot w' (nxt w + k) f = None) =
          ((k = 4 \<or> k = 5) \<and> f = 0 \<or> k = 1 \<and> f = 0 \<and> slot w s 0 = None)"
    using R(3) by (simp add: slot_def)
  have 4: "slot w' (nxt w + 4) 0 = None" "slot w' (nxt w + 5) 0 = None"
    using R(3) [of 4 0] R(3) [of 5 0] by (simp_all add: slot_def)
  from mem have "simplices w this \<noteq> []" by auto
  then have 5: "puncture this None w = puncture this (Some (simplices w this ! 0)) w"
    by (simp add: puncture_def hd_conv_nth)
  show ?thesis
    unfolding 2 by (intro conjI 1 3 4 5 refl)
qed

theorem puncture_boundary_witness:
  "wellFormed 3 gieseking 0 \<and> 0 \<in> set (simplices gieseking 0)
   \<and> puncture 0 (Some 0) gieseking = (None, giesekingPunctured)
   \<and> simplices giesekingPunctured 0 = [0, 1, 2, 3, 4, 5, 6]
   \<and> slot giesekingPunctured 5 0 = None \<and> slot giesekingPunctured 6 0 = None
   \<and> puncture 0 None gieseking = (None, giesekingPunctured)"
proof -
  have h: "wellFormed 3 gieseking 0" "0 \<in> set (simplices gieseking 0)"
    by (simp_all add: gieseking_facts)
  note r = giesekingPunctured_run
  note v = gieseking_facts(2,3)
  note T = puncture_boundary [OF h r, unfolded v]
  note T1 = T [THEN conjunct1]
  note T2 = T [THEN conjunct2, THEN conjunct1]
  note T3 = T [THEN conjunct2, THEN conjunct2, THEN conjunct1]
  note T4 = T [THEN conjunct2, THEN conjunct2, THEN conjunct2, THEN conjunct1]
  note T5 = T [THEN conjunct2, THEN conjunct2, THEN conjunct2, THEN conjunct2, THEN conjunct1]
  note T7 = T [THEN conjunct2, THEN conjunct2, THEN conjunct2, THEN conjunct2,
      THEN conjunct2, THEN conjunct2]
  from T1 have 1: "simplices giesekingPunctured 0 = [0, 1, 2, 3, 4, 5, 6]" by simp
  from T2 have i2: "simplices giesekingPunctured 0 ! (size_tri giesekingPunctured 0 - 2) = 5"
    by simp
  from T3 have i3: "simplices giesekingPunctured 0 ! (size_tri giesekingPunctured 0 - 1) = 6"
    by simp
  note 2 = T4 [unfolded i2] T5 [unfolded i3]
  from T7 r have 3: "puncture 0 None gieseking = (None, giesekingPunctured)" by simp
  show ?thesis by (intro conjI h r 1 2 3)
qed

section \<open>Properties of connectedSumWith\<close>

lemma runAll_simplices:
  assumes "runAll cs w = (e, w')"
    and "\<And>c v e' v'. c \<in> set cs \<Longrightarrow> c v = (e', v') \<Longrightarrow> simplices v' = simplices v"
  shows "simplices w' = simplices w"
  using runAll_invariant [OF assms(1), where I = "\<lambda>v. simplices v = simplices w"] assms(2)
  by simp

lemma join_simplices: "join dim me f you g v = (e, v') \<Longrightarrow> simplices v' = simplices v"
  by (auto dest: join_outcome)

lemma unjoin_simplices: "unjoin me f v = (e, v') \<Longrightarrow> simplices v' = simplices v"
  by (auto dest: unjoin_outcome)

lemma insertGluing_simplices:
  "insertGluing this X nOrig triPos f v = (e, v') \<Longrightarrow> simplices v' = simplices v"
  by (auto simp: insertGluing_def Let_def split: option.splits if_splits dest: join_simplices)

lemma fold_newSimplex_length:
  "length (simplices (fold (\<lambda>i v. snd (newSimplex dim (d v i) this v)) is w) this)
     = length (simplices w this) + length is
   \<and> (\<forall>t. t \<noteq> this \<longrightarrow>
         simplices (fold (\<lambda>i v. snd (newSimplex dim (d v i) this v)) is w) t = simplices w t)"
  by (induction "is" arbitrary: w) (simp_all add: newSimplex_fields)

lemma insertTriangulation_size:
  assumes "insertTriangulation this X w = (e, w')"
  shows "length (simplices w' this) = length (simplices w this) + length (simplices w X)"
    and "t \<noteq> this \<Longrightarrow> simplices w' t = simplices w t"
proof -
  let ?nX = "length (simplices w X)"
  let ?w1 = "fold (\<lambda>triPos v. snd (newSimplex 3 (description (heap v (simplices v X ! triPos))) this v))
                 [0..<?nX] w"
  from assms have "runAll (concat (map (\<lambda>triPos. map (insertGluing this X (length (simplices w this)) triPos)
                     [0..<4]) [0..<?nX])) ?w1 = (e, w')"
    by (simp add: insertTriangulation_def Let_def)
  then have "simplices w' = simplices ?w1"
    by (rule runAll_simplices) (auto dest: insertGluing_simplices)
  moreover note fold_newSimplex_length
    [of 3 "\<lambda>v i. description (heap v (simplices v X ! i))" this "[0..<?nX]" w]
  ultimately show "length (simplices w' this) = length (simplices w this) + length (simplices w X)"
    and "t \<noteq> this \<Longrightarrow> simplices w' t = simplices w t"
    by simp_all
qed

lemma reattach_simplices:
  assumes "(case adj (heap v s) 0 of
              None \<Rightarrow> (None, v)
            | Some a \<Rightarrow> (let g = gluing (heap v s) 0
                        in runAll [unjoin s 0, join 3 p 0 a g] v)) = (e, v')"
  shows "simplices v' = simplices v"
proof (cases "adj (heap v s) 0")
  case None
  with assms show ?thesis by simp
next
  case (Some a)
  with assms have "runAll [unjoin s 0, join 3 p 0 a (gluing (heap v s) 0)] v = (e, v')"
    by (simp add: Let_def del: runAll.simps)
  then show ?thesis
    by (rule runAll_simplices) (auto dest: join_simplices unjoin_simplices)
qed

lemma puncture_simplices:
  assumes "puncture this (Some s) w = (e, w')"
  shows "simplices w' = (simplices w)(this := simplices w this @
            [nxt w, nxt w + 1, nxt w + 2, nxt w + 3, nxt w + 4, nxt w + 5])"
proof -
  note S = sixTetrahedra(1) [where this = this and w = w]
  from assms [unfolded puncture_unfold]
  have "simplices w' = simplices (snd (newTetrahedron this (snd (newTetrahedron this
         (snd (newTetrahedron this (snd (newTetrahedron this (snd (newTetrahedron this
         (snd (newTetrahedron this w))))))))))))"
    by (rule runAll_simplices) (auto dest: join_simplices reattach_simplices)
  with S show ?thesis by simp
qed


lemma keepsD:
  assumes "keeps K h this v"
  shows "\<And>a. a \<in> K \<Longrightarrow> heap v a = h a \<and> a < nxt v"
    and "\<And>x. x \<in> set (simplices v this) \<Longrightarrow> x \<notin> K \<and> x < nxt v"
    and "\<And>x f a. x \<in> set (simplices v this) \<Longrightarrow> f \<le> 3 \<Longrightarrow> adj (heap v x) f = Some a
              \<Longrightarrow> a \<in> set (simplices v this)"
  using assms unfolding keeps_def by blast+

lemma keepsI:
  assumes "\<And>a. a \<in> K \<Longrightarrow> heap v a = h a \<and> a < nxt v"
    and "\<And>x. x \<in> set (simplices v this) \<Longrightarrow> x \<notin> K \<and> x < nxt v"
    and "\<And>x f a. x \<in> set (simplices v this) \<Longrightarrow> f \<le> 3 \<Longrightarrow> adj (heap v x) f = Some a
              \<Longrightarrow> a \<in> set (simplices v this)"
  shows "keeps K h this v"
  using assms unfolding keeps_def by blast

lemma keeps_newSimplex:
  assumes "keeps K h this v"
  shows "keeps K h this (snd (newSimplex 3 d this v))"
proof (rule keepsI)
  let ?v = "snd (newSimplex 3 d this v)"
  note D = keepsD [OF assms]
  have hp: "heap ?v a = heap v a" if "a < nxt v" for a
    using that by (simp add: newSimplex_fields)
  have hn: "adj (heap ?v (nxt v)) f = None" for f
    by (simp add: newSimplex_fields Simplex_def)
  have sp: "set (simplices ?v this) = insert (nxt v) (set (simplices v this))"
    by (simp add: newSimplex_fields)
  have nx: "nxt ?v = Suc (nxt v)" by (simp add: newSimplex_fields)
  show "heap ?v a = h a \<and> a < nxt ?v" if "a \<in> K" for a
    using D(1) [OF that] hp [of a] by (simp add: nx)
  show "x \<notin> K \<and> x < nxt ?v" if "x \<in> set (simplices ?v this)" for x
  proof (cases "x = nxt v")
    case True
    then show ?thesis using D(1) [of x] by (auto simp: nx)
  next
    case False
    with that have "x \<in> set (simplices v this)" by (simp add: sp)
    from D(2) [OF this] show ?thesis by (simp add: nx)
  qed
  show "a \<in> set (simplices ?v this)"
    if x: "x \<in> set (simplices ?v this)" and f: "f \<le> 3" and a: "adj (heap ?v x) f = Some a"
    for x f a
  proof (cases "x = nxt v")
    case True
    with a hn show ?thesis by simp
  next
    case False
    with x have xs: "x \<in> set (simplices v this)" by (simp add: sp)
    with D(2) hp a have "adj (heap v x) f = Some a" by simp
    from D(3) [OF xs f this] show ?thesis by (simp add: sp)
  qed
qed

lemma keeps_joinRaw:
  assumes "keeps K h this v" and me: "me \<in> set (simplices v this)"
    and you: "you \<in> set (simplices v this)"
  shows "keeps K h this (joinRaw me f you g v)"
proof (rule keepsI)
  let ?v = "joinRaw me f you g v"
  note D = keepsD [OF assms(1)]
  show "heap ?v a = h a \<and> a < nxt ?v" if "a \<in> K" for a
  proof -
    from that D(2) [OF me] D(2) [OF you] have "a \<noteq> me" "a \<noteq> you" by auto
    with D(1) [OF that] show ?thesis by (simp add: heap_joinRaw_other)
  qed
  show "x \<notin> K \<and> x < nxt ?v" if "x \<in> set (simplices ?v this)" for x
    using that D(2) [of x] by simp
  show "a \<in> set (simplices ?v this)"
    if x: "x \<in> set (simplices ?v this)" and k: "k \<le> 3" and a: "adj (heap ?v x) k = Some a"
    for x k a
  proof -
    from x have xs: "x \<in> set (simplices v this)" by simp
    from a have "a = me \<or> a = you \<or> adj (heap v x) k = Some a"
      by (simp add: adj_joinRaw split: if_splits)
    then show ?thesis
      using me you D(3) [OF xs k] by auto
  qed
qed

lemma keeps_unjoinRaw:
  assumes "keeps K h this v" and me: "me \<in> set (simplices v this)" and f: "f \<le> 3"
  shows "keeps K h this (unjoinRaw me f v)"
proof (cases "adj (heap v me) f")
  case None
  with assms(1) show ?thesis by (simp add: unjoinRaw_def)
next
  case (Some you)
  note D = keepsD [OF assms(1)]
  from D(3) [OF me f Some] have you: "you \<in> set (simplices v this)" .
  let ?v = "unjoinRaw me f v"
  have other: "heap ?v a = heap v a" if "a \<noteq> me" "a \<noteq> you" for a
    using that Some by (simp add: unjoinRaw_def Let_def)
  show ?thesis
  proof (rule keepsI)
    show "heap ?v a = h a \<and> a < nxt ?v" if "a \<in> K" for a
    proof -
      from that D(2) [OF me] D(2) [OF you] have "a \<noteq> me" "a \<noteq> you" by auto
      with D(1) [OF that] show ?thesis by (simp add: other)
    qed
    show "x \<notin> K \<and> x < nxt ?v" if "x \<in> set (simplices ?v this)" for x
      using that D(2) [of x] by simp
    show "a \<in> set (simplices ?v this)"
      if x: "x \<in> set (simplices ?v this)" and k: "k \<le> 3" and a: "adj (heap ?v x) k = Some a"
      for x k a
    proof -
      from x have xs: "x \<in> set (simplices v this)" by simp
      from a have "adj (heap v x) k = Some a"
        by (simp add: adj_unjoinRaw Some split: if_splits)
      from D(3) [OF xs k this] show ?thesis by simp
    qed
  qed
qed

lemma keeps_join:
  assumes "keeps K h this v" and "me \<in> set (simplices v this)" and "you \<in> set (simplices v this)"
    and "join 3 me f you g v = (e, v')"
  shows "keeps K h this v'"
  using join_outcome [OF assms(4)] assms(1) keeps_joinRaw [OF assms(1-3)] by auto

lemma keeps_unjoin:
  assumes "keeps K h this v" and "me \<in> set (simplices v this)" and "f \<le> 3"
    and "unjoin me f v = (e, v')"
  shows "keeps K h this v'"
  using unjoin_outcome [OF assms(4)] assms(1) keeps_unjoinRaw [OF assms(1-3)] by auto


lemma puncture_keeps:
  assumes k: "keeps K h this v" and s: "s \<in> set (simplices v this)"
    and run: "puncture this (Some s) v = (e, v')"
  shows "keeps K h this v'"
proof -
  define n where "n = nxt v"
  define w6 where "w6 = snd (newTetrahedron this (snd (newTetrahedron this (snd (newTetrahedron this
         (snd (newTetrahedron this (snd (newTetrahedron this (snd (newTetrahedron this v)))))))))))"
  define I where "I u \<longleftrightarrow> keeps K h this u \<and> simplices u = simplices w6" for u :: world
  define pres where "pres c \<longleftrightarrow> (\<forall>u e' u'. I u \<longrightarrow> c u = (e', u') \<longrightarrow> I u')" for c :: command
  have k6: "keeps K h this w6"
    unfolding w6_def newTetrahedron_def by (intro keeps_newSimplex k)
  have s6: "set (simplices w6 this) = set (simplices v this) \<union> {n, n + 1, n + 2, n + 3, n + 4, n + 5}"
    using sixTetrahedra(1) [where this = this and w = v] by (auto simp: w6_def n_def)
  have new: "n \<in> set (simplices w6 this)" "n + 1 \<in> set (simplices w6 this)"
    "n + 2 \<in> set (simplices w6 this)" "n + 3 \<in> set (simplices w6 this)"
    "n + 4 \<in> set (simplices w6 this)" "n + 5 \<in> set (simplices w6 this)"
    and old: "s \<in> set (simplices w6 this)"
    using s by (simp_all add: s6)
  have I6: "I w6" using k6 by (simp add: I_def)
  have Ij: "pres (join 3 me f you g)"
    if "me \<in> set (simplices w6 this)" "you \<in> set (simplices w6 this)" for me f you g
    unfolding pres_def
  proof (intro allI impI)
    fix u e' u' assume u: "I u" and j: "join 3 me f you g u = (e', u')"
    from u that have "keeps K h this u" "me \<in> set (simplices u this)" "you \<in> set (simplices u this)"
      by (simp_all add: I_def)
    from keeps_join [OF this j] join_simplices [OF j] u show "I u'" by (simp add: I_def)
  qed
  have Iu: "pres (unjoin me f)" if "me \<in> set (simplices w6 this)" "f \<le> 3" for me f
    unfolding pres_def
  proof (intro allI impI)
    fix u e' u' assume u: "I u" and j: "unjoin me f u = (e', u')"
    from u that have "keeps K h this u" "me \<in> set (simplices u this)"
      by (simp_all add: I_def)
    from keeps_unjoin [OF this that(2) j] unjoin_simplices [OF j] u show "I u'"
      by (simp add: I_def)
  qed
  have Ir: "I u'" if "\<forall>c \<in> set cs. pres c" "I u" "runAll cs u = (e', u')" for cs u e' u'
    using that(3,2)
  proof (rule runAll_invariant [where I = I])
    fix c x e'' x' assume "c \<in> set cs" "I x" "c x = (e'', x')"
    with that(1) show "I x'" unfolding pres_def by blast
  qed
  have Im: "pres (\<lambda>u. case adj (heap u s) 0 of
              None \<Rightarrow> (None, u)
            | Some a \<Rightarrow> (let g = gluing (heap u s) 0
                        in runAll [unjoin s 0, join 3 (n + 1) 0 a g] u))"
    unfolding pres_def
  proof (intro allI impI)
    fix u e' u'
    assume u: "I u" and r: "(case adj (heap u s) 0 of
              None \<Rightarrow> (None, u)
            | Some a \<Rightarrow> (let g = gluing (heap u s) 0
                        in runAll [unjoin s 0, join 3 (n + 1) 0 a g] u)) = (e', u')"
    show "I u'"
    proof (cases "adj (heap u s) 0")
      case None
      with r u show ?thesis by simp
    next
      case (Some a)
      from u old have su: "s \<in> set (simplices u this)" by (simp add: I_def)
      from u have "keeps K h this u" by (simp add: I_def)
      from keepsD(3) [OF this su _ Some] u have a: "a \<in> set (simplices w6 this)"
        by (simp add: I_def)
      from r Some have "runAll [unjoin s 0, join 3 (n + 1) 0 a (gluing (heap u s) 0)] u = (e', u')"
        by (simp add: Let_def del: runAll.simps)
      moreover have "\<forall>c \<in> set [unjoin s 0, join 3 (n + 1) 0 a (gluing (heap u s) 0)]. pres c"
        using Iu [OF old] Ij [OF new(2) a] by simp
      ultimately show ?thesis using Ir u by blast
    qed
  qed
  let ?cmds = "[join 3 n 0 (n + 2) [3,0,1,2],
        join 3 (n + 2) 0 (n + 4) [3,0,1,2],
        join 3 (n + 1) 1 (n + 3) [3,0,1,2],
        join 3 (n + 3) 1 (n + 5) [3,2,0,1],
        join 3 n 1 (n + 1) [1,2,3,0],
        join 3 n 2 (n + 1) [1,2,3,0],
        join 3 (n + 2) 1 (n + 3) [1,2,3,0],
        join 3 (n + 2) 2 (n + 3) [1,2,3,0],
        join 3 (n + 4) 1 (n + 5) [0,1,3,2],
        join 3 (n + 4) 2 (n + 5) [0,1,3,2],
        (\<lambda>u. case adj (heap u s) 0 of
              None \<Rightarrow> (None, u)
            | Some a \<Rightarrow> (let g = gluing (heap u s) 0
                        in runAll [unjoin s 0, join 3 (n + 1) 0 a g] u)),
        join 3 s 0 n [3,0,1,2]]"
  have all: "\<forall>c \<in> set ?cmds. pres c"
    unfolding list.set ball_simps
    by (intro conjI Ij Im new old) simp
  from run have "runAll ?cmds w6 = (e, v')"
    unfolding puncture_unfold w6_def n_def .
  from Ir [OF all I6 this] show ?thesis by (simp add: I_def)
qed


lemma fold_newSimplex_keeps:
  assumes "keeps K h this w"
  shows "keeps K h this (fold (\<lambda>i v. snd (newSimplex 3 (d v i) this v)) is w)"
  using assms by (induction "is" arbitrary: w) (simp_all add: keeps_newSimplex)

lemma insertTriangulation_keeps:
  assumes k: "keeps (set (simplices w X)) (heap w) this w" and wf: "wellFormed 3 w X"
    and ne: "X \<noteq> this" and run: "insertTriangulation this X w = (e, w')"
  shows "keeps (set (simplices w X)) (heap w) this w'"
proof -
  let ?K = "set (simplices w X)" and ?nX = "length (simplices w X)"
    and ?nOrig = "length (simplices w this)"
  let ?d = "\<lambda>v i. description (heap v (simplices v X ! i))"
  define w1 where "w1 = fold (\<lambda>triPos v. snd (newSimplex 3 (?d v triPos) this v)) [0..<?nX] w"
  define I where "I u \<longleftrightarrow> keeps ?K (heap w) this u \<and> simplices u = simplices w1" for u :: world
  have k1: "keeps ?K (heap w) this w1"
    unfolding w1_def by (rule fold_newSimplex_keeps [OF k])
  have l1: "length (simplices w1 this) = ?nOrig + ?nX" and x1: "simplices w1 X = simplices w X"
    using fold_newSimplex_length [of 3 ?d this "[0..<?nX]" w] ne
    by (simp_all add: w1_def)
  have I1: "I w1" using k1 by (simp add: I_def)
  have step: "I u'"
    if u: "I u" and r: "insertGluing this X ?nOrig triPos f u = (e', u')"
      and t: "triPos < ?nX" and f: "f < 4" for u u' e' triPos f
  proof -
    from u have ku: "keeps ?K (heap w) this u" and su: "simplices u = simplices w1"
      by (simp_all add: I_def)
    let ?t = "simplices w X ! triPos"
    from t have tK: "?t \<in> ?K" by simp
    from keepsD(1) [OF ku tK] have ht: "heap u ?t = heap w ?t" by simp
    show ?thesis
    proof (cases "adj (heap w ?t) f")
      case None
      with r ht u show ?thesis by (simp add: insertGluing_def su x1)
    next
      case (Some a)
      from f have "f \<le> 3" by simp
      from wellFormedD(4) [OF wf tK this Some] have aK: "a \<in> ?K" .
      from keepsD(1) [OF ku aK] have ha: "heap u a = heap w a" by simp
      from wellFormed_member [OF wf aK] have m: "marking (heap w a) < ?nX" by simp
      have me: "simplices u this ! (?nOrig + triPos) \<in> set (simplices u this)"
        and you: "simplices u this ! (?nOrig + marking (heap w a)) \<in> set (simplices u this)"
        using t m l1 by (simp_all add: su)
      from r Some ht ha consider "u' = u"
        | "join 3 (simplices u this ! (?nOrig + triPos)) f
             (simplices u this ! (?nOrig + marking (heap w a))) (gluing (heap w ?t) f) u = (e', u')"
        by (auto simp: insertGluing_def su x1 Let_def split: if_splits)
      then show ?thesis
      proof cases
        case 1
        with u show ?thesis by simp
      next
        case 2
        from keeps_join [OF ku me you 2] join_simplices [OF 2] su show ?thesis
          by (simp add: I_def)
      qed
    qed
  qed
  from run have "runAll (concat (map (\<lambda>triPos. map (insertGluing this X ?nOrig triPos)
                     [0..<4]) [0..<?nX])) w1 = (e, w')"
    by (simp add: insertTriangulation_def Let_def w1_def)
  then have "I w'"
  proof (rule runAll_invariant [where I = I, OF _ I1])
    fix c u e' u'
    assume c: "c \<in> set (concat (map (\<lambda>triPos. map (insertGluing this X ?nOrig triPos)
                     [0..<4]) [0..<?nX]))"
      and u: "I u" and r: "c u = (e', u')"
    from c obtain triPos f where "triPos < ?nX" "f < 4" "c = insertGluing this X ?nOrig triPos f"
      by auto
    with step [OF u] r show "I u'" by blast
  qed
  then show ?thesis by (simp add: I_def)
qed


lemma runAll_keeps:
  assumes run: "runAll cs u = (e, u')" and k: "keeps K h this u"
    and cs: "\<And>c. c \<in> set cs \<Longrightarrow>
        (\<exists>me f you g. c = join 3 me f you g \<and> me \<in> set (simplices u this)
            \<and> you \<in> set (simplices u this))
        \<or> (\<exists>me f. c = unjoin me f \<and> me \<in> set (simplices u this) \<and> f \<le> 3)"
  shows "keeps K h this u' \<and> simplices u' = simplices u"
  using run
proof (rule runAll_invariant [where I = "\<lambda>x. keeps K h this x \<and> simplices x = simplices u"])
  show "keeps K h this u \<and> simplices u = simplices u" using k by simp
next
  fix c x e' x'
  assume c: "c \<in> set cs" and x: "keeps K h this x \<and> simplices x = simplices u"
    and r: "c x = (e', x')"
  from cs [OF c] show "keeps K h this x' \<and> simplices x' = simplices u"
  proof
    assume "\<exists>me f you g. c = join 3 me f you g \<and> me \<in> set (simplices u this)
            \<and> you \<in> set (simplices u this)"
    then obtain me f you g where c': "c = join 3 me f you g"
      and m: "me \<in> set (simplices x this)" "you \<in> set (simplices x this)"
      using x by auto
    from r c' have j: "join 3 me f you g x = (e', x')" by simp
    from keeps_join [OF _ m j] join_simplices [OF j] x show ?thesis by simp
  next
    assume "\<exists>me f. c = unjoin me f \<and> me \<in> set (simplices u this) \<and> f \<le> 3"
    then obtain me f where c': "c = unjoin me f"
      and m: "me \<in> set (simplices x this)" "f \<le> 3"
      using x by auto
    from r c' have j: "unjoin me f x = (e', x')" by simp
    from keeps_unjoin [OF _ m j] unjoin_simplices [OF j] x show ?thesis by simp
  qed
qed

lemma connectedSumWith_unfold:
  assumes "simplices w other \<noteq> []" "simplices w this \<noteq> []"
    and "connectedSumWith skel this other w = (None, w')"
  obtains v1 v2 where "insertTriangulation this other w = (None, v1)"
    and "puncture this (Some (hd (simplices v1 this))) v1 = (None, v2)"
    and "(let bdry0 = simplices v2 this ! (length (simplices v2 this) - 2);
              bdry1 = simplices v2 this ! (length (simplices v2 this) - 1)
          in case skel v2 (simplices v2 this ! length (simplices w this)) of
               (emb1, Some emb2) \<Rightarrow>
                 runAll
                   ([unjoin (fst emb1) (snd emb1 ! 3)] @
                    (if perm_sign (snd emb1) > 0
                     then [join 3 bdry0 0 (fst emb1) (perm_mult (snd emb1) [3,0,1,2]),
                           join 3 bdry1 0 (fst emb2) (perm_mult (snd emb2) [3,0,2,1])]
                     else [join 3 bdry0 0 (fst emb1) (perm_mult (snd emb1) [3,0,2,1]),
                           join 3 bdry1 0 (fst emb2) (perm_mult (snd emb2) [3,0,1,2])])) v2
             | (emb1, None) \<Rightarrow>
                 (if perm_sign (snd emb1) > 0
                  then join 3 bdry0 0 (fst emb1) (perm_mult (snd emb1) [3,0,1,2]) v2
                  else join 3 bdry0 0 (fst emb1) (perm_mult (snd emb1) [3,0,2,1]) v2))
         = (None, w')"
proof -
  from assms have "runAll
           [insertTriangulation this other,
            (\<lambda>v. puncture this (Some (hd (simplices v this))) v),
            (\<lambda>v. let bdry0 = simplices v this ! (length (simplices v this) - 2);
                      bdry1 = simplices v this ! (length (simplices v this) - 1)
                  in case skel v (simplices v this ! length (simplices w this)) of
                       (emb1, Some emb2) \<Rightarrow>
                         runAll
                           ([unjoin (fst emb1) (snd emb1 ! 3)] @
                            (if perm_sign (snd emb1) > 0
                             then [join 3 bdry0 0 (fst emb1) (perm_mult (snd emb1) [3,0,1,2]),
                                   join 3 bdry1 0 (fst emb2) (perm_mult (snd emb2) [3,0,2,1])]
                             else [join 3 bdry0 0 (fst emb1) (perm_mult (snd emb1) [3,0,2,1]),
                                   join 3 bdry1 0 (fst emb2) (perm_mult (snd emb2) [3,0,1,2])])) v
                     | (emb1, None) \<Rightarrow>
                         (if perm_sign (snd emb1) > 0
                          then join 3 bdry0 0 (fst emb1) (perm_mult (snd emb1) [3,0,1,2]) v
                          else join 3 bdry0 0 (fst emb1) (perm_mult (snd emb1) [3,0,2,1]) v))] w
        = (None, w')"
    unfolding connectedSumWith_def Let_def by (simp del: runAll.simps)
  then show ?thesis
    by (elim runAll_ConsE) (use that in \<open>simp add: Let_def del: join_def\<close>)
qed


lemma glueBoundary_keeps:
  assumes k: "keeps K h this v" and H: "embedsIn skel this"
    and n: "n < length (simplices v this)" and two: "2 \<le> length (simplices v this)"
    and run: "(let bdry0 = simplices v this ! (length (simplices v this) - 2);
              bdry1 = simplices v this ! (length (simplices v this) - 1)
          in case skel v (simplices v this ! n) of
               (emb1, Some emb2) \<Rightarrow>
                 runAll
                   ([unjoin (fst emb1) (snd emb1 ! 3)] @
                    (if perm_sign (snd emb1) > 0
                     then [join 3 bdry0 0 (fst emb1) (perm_mult (snd emb1) [3,0,1,2]),
                           join 3 bdry1 0 (fst emb2) (perm_mult (snd emb2) [3,0,2,1])]
                     else [join 3 bdry0 0 (fst emb1) (perm_mult (snd emb1) [3,0,2,1]),
                           join 3 bdry1 0 (fst emb2) (perm_mult (snd emb2) [3,0,1,2])])) v
             | (emb1, None) \<Rightarrow>
                 (if perm_sign (snd emb1) > 0
                  then join 3 bdry0 0 (fst emb1) (perm_mult (snd emb1) [3,0,1,2]) v
                  else join 3 bdry0 0 (fst emb1) (perm_mult (snd emb1) [3,0,2,1]) v))
         = (e, w')"
  shows "keeps K h this w' \<and> simplices w' = simplices v"
proof -
  let ?x = "simplices v this ! n"
  let ?b0 = "simplices v this ! (length (simplices v this) - 2)"
  let ?b1 = "simplices v this ! (length (simplices v this) - 1)"
  obtain emb1 bk where t: "skel v ?x = (emb1, bk)" by (cases "skel v ?x")
  from n have x: "?x \<in> set (simplices v this)" by simp
  from two have b: "?b0 \<in> set (simplices v this)" "?b1 \<in> set (simplices v this)" by simp_all
  from H x t have e1: "fst emb1 \<in> set (simplices v this)" and f1: "snd emb1 ! 3 \<le> 3"
    and e2: "\<And>emb2. bk = Some emb2 \<Longrightarrow> fst emb2 \<in> set (simplices v this)"
    unfolding embedsIn_def by (metis fst_conv snd_conv)+
  show ?thesis
  proof (cases bk)
    case None
    with run t obtain g where j: "join 3 ?b0 0 (fst emb1) g v = (e, w')"
      by (simp add: Let_def split: if_splits)
    from keeps_join [OF k b(1) e1 j] join_simplices [OF j] show ?thesis by simp
  next
    case (Some emb2)
    with run t obtain g1 g2 where
      r: "runAll [unjoin (fst emb1) (snd emb1 ! 3), join 3 ?b0 0 (fst emb1) g1,
                  join 3 ?b1 0 (fst emb2) g2] v = (e, w')"
      by (simp add: Let_def del: runAll.simps split: if_splits)
    from r k show ?thesis
    proof (rule runAll_keeps)
      fix c
      assume "c \<in> set [unjoin (fst emb1) (snd emb1 ! 3), join 3 ?b0 0 (fst emb1) g1,
                  join 3 ?b1 0 (fst emb2) g2]"
      then consider "c = unjoin (fst emb1) (snd emb1 ! 3)" | "c = join 3 ?b0 0 (fst emb1) g1"
        | "c = join 3 ?b1 0 (fst emb2) g2" by auto
      then show "(\<exists>me f you g. c = join 3 me f you g \<and> me \<in> set (simplices v this)
            \<and> you \<in> set (simplices v this))
        \<or> (\<exists>me f. c = unjoin me f \<and> me \<in> set (simplices v this) \<and> f \<le> 3)"
        using e1 f1 e2 [OF Some] b by cases blast+
    qed
  qed
qed


lemma glueBoundary_simplices:
  assumes run: "(let bdry0 = simplices v this ! (length (simplices v this) - 2);
              bdry1 = simplices v this ! (length (simplices v this) - 1)
          in case skel v (simplices v this ! n) of
               (emb1, Some emb2) \<Rightarrow>
                 runAll
                   ([unjoin (fst emb1) (snd emb1 ! 3)] @
                    (if perm_sign (snd emb1) > 0
                     then [join 3 bdry0 0 (fst emb1) (perm_mult (snd emb1) [3,0,1,2]),
                           join 3 bdry1 0 (fst emb2) (perm_mult (snd emb2) [3,0,2,1])]
                     else [join 3 bdry0 0 (fst emb1) (perm_mult (snd emb1) [3,0,2,1]),
                           join 3 bdry1 0 (fst emb2) (perm_mult (snd emb2) [3,0,1,2])])) v
             | (emb1, None) \<Rightarrow>
                 (if perm_sign (snd emb1) > 0
                  then join 3 bdry0 0 (fst emb1) (perm_mult (snd emb1) [3,0,1,2]) v
                  else join 3 bdry0 0 (fst emb1) (perm_mult (snd emb1) [3,0,2,1]) v))
         = (e, w')"
  shows "simplices w' = simplices v"
proof -
  let ?x = "simplices v this ! n"
  let ?b0 = "simplices v this ! (length (simplices v this) - 2)"
  let ?b1 = "simplices v this ! (length (simplices v this) - 1)"
  obtain emb1 bk where t: "skel v ?x = (emb1, bk)" by (cases "skel v ?x")
  show ?thesis
  proof (cases bk)
    case None
    with run t obtain g where j: "join 3 ?b0 0 (fst emb1) g v = (e, w')"
      by (simp add: Let_def split: if_splits)
    from join_simplices [OF j] show ?thesis .
  next
    case (Some emb2)
    with run t obtain g1 g2 where
      r: "runAll [unjoin (fst emb1) (snd emb1 ! 3), join 3 ?b0 0 (fst emb1) g1,
                  join 3 ?b1 0 (fst emb2) g2] v = (e, w')"
      by (simp add: Let_def del: runAll.simps split: if_splits)
    then show ?thesis
      by (rule runAll_simplices) (auto dest: join_simplices unjoin_simplices)
  qed
qed

lemma connectedSumWith_steps:
  assumes ne: "simplices w other \<noteq> []" "simplices w this \<noteq> []"
    and ok: "connectedSumWith skel this other w = (None, w')"
  shows "\<exists>v1 v2. insertTriangulation this other w = (None, v1)
    \<and> puncture this (Some (hd (simplices v1 this))) v1 = (None, v2)
    \<and> simplices w' = simplices v2
    \<and> (\<forall>K h. keeps K h this v2 \<longrightarrow> embedsIn skel this
           \<longrightarrow> length (simplices w this) < length (simplices v2 this)
           \<longrightarrow> 2 \<le> length (simplices v2 this) \<longrightarrow> keeps K h this w')"
proof (rule connectedSumWith_unfold [OF ne ok], goal_cases)
  case (1 v1 v2)
  have "simplices w' = simplices v2"
    by (rule glueBoundary_simplices [where skel = skel and v = v2 and this = this
          and n = "length (simplices w this)" and e = None and w' = w', OF 1(3)])
  moreover have "keeps K h this w'"
      if "keeps K h this v2" "embedsIn skel this"
        "length (simplices w this) < length (simplices v2 this)"
        "2 \<le> length (simplices v2 this)" for K h
      using glueBoundary_keeps [where skel = skel and v = v2 and this = this
          and n = "length (simplices w this)" and e = None and w' = w', OF that 1(3)] by simp
  ultimately show ?case using 1(1,2) by blast
qed

text \<open>
  Claim C6. When \<open>A.connectedSumWith(B)\<close> has returned: if \<open>B\<close> is empty nothing has
  changed; if \<open>A\<close> is empty (and \<open>B\<close> is not) the call was the insertion of a copy of \<open>B\<close>; and
  if neither is empty, the size of \<open>A\<close> is its old size plus the size of \<open>B\<close> plus 6, also
  when \<open>B\<close> is \<open>A\<close> itself. A triangulation \<open>B\<close> other than \<open>A\<close> keeps its sequence of
  simplices, and each of its simplices is left as it was, given the invariants of the
  data model for both triangulations, no simplex in both, and a skeleton that embeds the
  triangles of \<open>A\<close> in tetrahedra of \<open>A\<close>.
\<close>

theorem connectedSumWith_sum:
  assumes ok: "connectedSumWith skel this other w = (None, w')"
  shows "(simplices w other = [] \<longrightarrow> w' = w)
    \<and> (simplices w other \<noteq> [] \<longrightarrow> simplices w this = [] \<longrightarrow>
          insertTriangulation this other w = (None, w'))
    \<and> (simplices w other \<noteq> [] \<longrightarrow> simplices w this \<noteq> [] \<longrightarrow>
          size_tri w' this = size_tri w this + size_tri w other + 6)
    \<and> (other \<noteq> this \<longrightarrow> simplices w' other = simplices w other)
    \<and> (wellFormed 3 w this \<longrightarrow> wellFormed 3 w other \<longrightarrow> other \<noteq> this \<longrightarrow>
          set (simplices w this) \<inter> set (simplices w other) = {} \<longrightarrow>
          embedsIn skel this \<longrightarrow>
          (\<forall>a \<in> set (simplices w other). heap w' a = heap w a))"
proof (intro conjI impI)
  assume "simplices w other = []"
  with ok show "w' = w" by (simp add: connectedSumWith_def)
next
  assume "simplices w other \<noteq> []" "simplices w this = []"
  with ok show "insertTriangulation this other w = (None, w')"
    by (simp add: connectedSumWith_def)
next
  assume ne: "simplices w other \<noteq> []" "simplices w this \<noteq> []"
  from connectedSumWith_steps [OF ne ok] obtain v1 v2 where
    1: "insertTriangulation this other w = (None, v1)"
    and 2: "puncture this (Some (hd (simplices v1 this))) v1 = (None, v2)"
    and 3: "simplices w' = simplices v2"
    by blast
  from insertTriangulation_size(1) [OF 1] puncture_simplices [OF 2] 3
  show "size_tri w' this = size_tri w this + size_tri w other + 6"
    by (simp add: size_tri_def)
next
  assume d: "other \<noteq> this"
  show "simplices w' other = simplices w other"
  proof (cases "simplices w other = [] \<or> simplices w this = []")
    case True
    with ok have "w' = w \<or> insertTriangulation this other w = (None, w')"
      by (auto simp: connectedSumWith_def split: if_splits)
    with insertTriangulation_size(2) [of this other w None w' other] d show ?thesis
      by auto
  next
    case False
    then have ne: "simplices w other \<noteq> []" "simplices w this \<noteq> []" by simp_all
    from connectedSumWith_steps [OF ne ok] obtain v1 v2 where
      1: "insertTriangulation this other w = (None, v1)"
      and 2: "puncture this (Some (hd (simplices v1 this))) v1 = (None, v2)"
      and 3: "simplices w' = simplices v2"
      by blast
    from insertTriangulation_size(2) [OF 1 d] puncture_simplices [OF 2] 3 d
    show ?thesis by simp
  qed
next
  assume wfA: "wellFormed 3 w this" and wfB: "wellFormed 3 w other" and d: "other \<noteq> this"
    and dj: "set (simplices w this) \<inter> set (simplices w other) = {}"
    and H: "embedsIn skel this"
  let ?K = "set (simplices w other)"
  have k0: "keeps ?K (heap w) this w"
  proof (rule keepsI)
    show "heap w a = heap w a \<and> a < nxt w" if "a \<in> ?K" for a
      using wellFormedD(3) [OF wfB that] by simp
    show "x \<notin> ?K \<and> x < nxt w" if "x \<in> set (simplices w this)" for x
      using wellFormedD(3) [OF wfA that] dj that by auto
    show "a \<in> set (simplices w this)"
      if "x \<in> set (simplices w this)" "f \<le> 3" "adj (heap w x) f = Some a" for x f a
      using wellFormedD(4) [OF wfA that] .
  qed
  have "keeps ?K (heap w) this w'"
  proof (cases "simplices w other = [] \<or> simplices w this = []")
    case True
    with ok have "w' = w \<or> insertTriangulation this other w = (None, w')"
      by (auto simp: connectedSumWith_def split: if_splits)
    then show ?thesis
      using k0 insertTriangulation_keeps [OF k0 wfB d] by blast
  next
    case False
    then have ne: "simplices w other \<noteq> []" "simplices w this \<noteq> []" by simp_all
    from connectedSumWith_steps [OF ne ok] obtain v1 v2 where
      1: "insertTriangulation this other w = (None, v1)"
      and 2: "puncture this (Some (hd (simplices v1 this))) v1 = (None, v2)"
      and 4: "\<And>K h. keeps K h this v2 \<Longrightarrow> embedsIn skel this
           \<Longrightarrow> length (simplices w this) < length (simplices v2 this)
           \<Longrightarrow> 2 \<le> length (simplices v2 this) \<Longrightarrow> keeps K h this w'"
      by blast
    from insertTriangulation_keeps [OF k0 wfB d 1] have k1: "keeps ?K (heap w) this v1" .
    from insertTriangulation_size(1) [OF 1] ne
    have l1: "length (simplices v1 this) = length (simplices w this) + length (simplices w other)"
      and "simplices v1 this \<noteq> []" by auto
    then have s: "hd (simplices v1 this) \<in> set (simplices v1 this)" by simp
    from puncture_keeps [OF k1 s 2] have k2: "keeps ?K (heap w) this v2" .
    from puncture_simplices [OF 2] l1
    have l2: "length (simplices v2 this) = length (simplices w this) + length (simplices w other) + 6"
      by simp
    then have n: "length (simplices w this) < length (simplices v2 this)"
      and two: "2 \<le> length (simplices v2 this)" by simp_all
    from 4 [OF k2 H n two] show ?thesis .
  qed
  from keepsD(1) [OF this] show "\<forall>a \<in> ?K. heap w' a = heap w a" by simp
qed

lemma pair_facts:
  "wellFormed 3 tetrahedronPair 0" "wellFormed 3 tetrahedronPair 1"
  "simplices tetrahedronPair 0 = [0]" "simplices tetrahedronPair 1 = [1]"
  "size_tri tetrahedronPair 0 = 1" "size_tri tetrahedronPair 1 = 1"
  by code_simp+

lemma inserted_facts:
  "fst (insertTriangulation 0 1 tetrahedronPair) = None"
  "simplices tetrahedronPairInserted 0 = [0, 2]"
  "nxt tetrahedronPairInserted = 3"
  "adj (heap tetrahedronPairInserted 0) 0 = None"
  "adj (heap tetrahedronPairInserted 2) 0 = None"
  "\<not> simplexLock (heap tetrahedronPairInserted 0)"
  "\<not> facetLock (heap tetrahedronPairInserted 0) 0"
  "\<not> simplexLock (heap tetrahedronPairInserted 2)"
  "\<not> facetLock (heap tetrahedronPairInserted 2) 0"
  by code_simp+


lemma puncture_locks:
  assumes ok: "puncture this (Some s) w = (None, w')" and s: "s < nxt w"
  shows "a < nxt w \<Longrightarrow> simplexLock (heap w' a) = simplexLock (heap w a)"
    and "a < nxt w \<Longrightarrow> facetLock (heap w' a) = facetLock (heap w a)"
    and "nxt w \<le> a \<Longrightarrow> a < nxt w + 6 \<Longrightarrow> \<not> simplexLock (heap w' a)"
    and "nxt w \<le> a \<Longrightarrow> a < nxt w + 6 \<Longrightarrow> \<not> facetLock (heap w' a) f"
  using sixTetrahedra(3) [where this = this and w = w and a = a]
    sixTetrahedra_locks [where this = this and w = w and a = a]
  unfolding puncture_store [OF ok s]
  by (simp_all split: option.splits)

lemma embedsIn_boundaryTriangle0: "embedsIn boundaryTriangle0 t"
  by (simp add: embedsIn_def boundaryTriangle0_def)

lemma tetrahedronPairSum_run:
  "connectedSumWith boundaryTriangle0 0 1 tetrahedronPair = (None, tetrahedronPairSum)"
proof -
  let ?v1 = tetrahedronPairInserted
  have 1: "insertTriangulation 0 1 tetrahedronPair = (None, ?v1)"
    using inserted_facts(1) by (simp add: tetrahedronPairInserted_def prod_eq_iff)
  obtain v2 where 2: "puncture 0 (Some 0) ?v1 = (None, v2)"
    using puncture_succeeds [of 0 ?v1 0]
    by (cases "puncture 0 (Some 0) ?v1") (simp add: inserted_facts)
  have s: "(0::nat) < nxt ?v1" by (simp add: inserted_facts)
  have nb: "b < nxt ?v1" if "adj (heap ?v1 0) 0 = Some b" for b
    using that by (simp add: inserted_facts)
  note E = puncture_effect [OF 2 s nb]
  note L = puncture_locks [OF 2 s]
  have sv2: "simplices v2 0 = [0, 2, 3, 4, 5, 6, 7, 8]"
    using E(1) by (simp add: inserted_facts)
  have a7: "adj (heap v2 7) 0 = None"
    using E(3) [of 4 0] by (simp add: inserted_facts)
  have "slot v2 2 0 = slot ?v1 2 0"
    using E(2) [of 2 0] by (simp add: inserted_facts)
  then have a2: "adj (heap v2 2) 0 = None"
    by (simp add: slot_def inserted_facts)
  have l: "\<not> simplexLock (heap v2 7)" "\<not> facetLock (heap v2 7) 0"
    "\<not> simplexLock (heap v2 2)" "\<not> facetLock (heap v2 2) 0"
    using L(3) [of 7] L(4) [of 7 0] L(1) [of 2] L(2) [of 2]
    by (simp_all add: inserted_facts)
  have g: "perm_sign [1,2,3,0] = - 1" "perm_mult [1,2,3,0] [3,0,2,1] = [0,1,3,2]"
    by code_simp+
  have 3: "join 3 7 0 2 [0,1,3,2] v2 = (None, joinRaw 7 0 2 [0,1,3,2] v2)"
    by (rule join_ok) (simp_all add: a7 a2 l)
  have "fst (connectedSumWith boundaryTriangle0 0 1 tetrahedronPair) = None"
    by (simp add: connectedSumWith_def pair_facts 1 inserted_facts 2 sv2
        boundaryTriangle0_def g 3 del: One_nat_def)
  then show ?thesis by (simp add: tetrahedronPairSum_def prod_eq_iff)
qed

theorem connectedSumWith_sum_witness:
  "connectedSumWith boundaryTriangle0 0 1 tetrahedronPair = (None, tetrahedronPairSum)
   \<and> size_tri tetrahedronPair 0 = 1 \<and> size_tri tetrahedronPair 1 = 1
   \<and> size_tri tetrahedronPairSum 0 = 8
   \<and> simplices tetrahedronPairSum 1 = [1]
   \<and> wellFormed 3 tetrahedronPair 0 \<and> wellFormed 3 tetrahedronPair 1
   \<and> embedsIn boundaryTriangle0 0
   \<and> heap tetrahedronPairSum 1 = heap tetrahedronPair 1"
proof -
  note T = connectedSumWith_sum [OF tetrahedronPairSum_run]
  have ne: "simplices tetrahedronPair 1 \<noteq> []" "simplices tetrahedronPair 0 \<noteq> []"
    "(1::nat) \<noteq> 0"
    "set (simplices tetrahedronPair 0) \<inter> set (simplices tetrahedronPair 1) = {}"
    by (simp_all add: pair_facts del: One_nat_def)
  from T ne have 1: "size_tri tetrahedronPairSum 0 = 8"
    by (simp add: pair_facts del: One_nat_def)
  from T ne have 2: "simplices tetrahedronPairSum 1 = [1]"
    by (simp add: pair_facts del: One_nat_def)
  from T ne pair_facts(1,2) embedsIn_boundaryTriangle0 [of 0]
  have "\<forall>a \<in> set (simplices tetrahedronPair 1). heap tetrahedronPairSum a = heap tetrahedronPair a"
    by blast
  then have 3: "heap tetrahedronPairSum 1 = heap tetrahedronPair 1"
    by (simp add: pair_facts del: One_nat_def)
  show ?thesis
    by (intro conjI tetrahedronPairSum_run pair_facts 1 2 3 embedsIn_boundaryTriangle0)
qed

end
